theory Spec2Isabelle
  imports Main "HOL-Library.Word"
begin

unbundle bit_operations_syntax

section \<open>The ring buffer of \<^verbatim>\<open>include/fadli/SPSCRingBuffer.hpp\<close>\<close>

text \<open>
  \<^verbatim>\<open>std::size_t\<close> is a 64-bit unsigned integer: \<^verbatim>\<open>next_power_of_2\<close> shifts by 32,
  which only a 64-bit \<^verbatim>\<open>size_t\<close> allows. Addition and subtraction wrap around.

  The two atomics \<^verbatim>\<open>head_\<close> and \<^verbatim>\<open>tail_\<close> are plain fields here: the embedding is
  of calls made one after the other, and says nothing about memory orders.
  A member \<^verbatim>\<open>x_\<close> of the class is the field \<open>m_x\<close> of the record (a name cannot end
  with an underscore).
\<close>

type_synonym size_t = "64 word"

datatype error = BadAlloc | OutOfBounds

record 'a SPSCRingBuffer =
  m_capacity :: size_t
  m_index_mask :: size_t
  m_buffer :: "'a list"
  m_head :: size_t
  m_tail_cache :: size_t
  m_tail :: size_t
  m_head_cache :: size_t

subsection \<open>Construction\<close>

text \<open>\<^verbatim>\<open>next_power_of_2\<close>, lines 66-77: the six shifted ORs, then the wrapping \<^verbatim>\<open>n + 1\<close>.\<close>

definition next_power_of_2 :: "size_t \<Rightarrow> size_t" where
  "next_power_of_2 n0 =
     (if n0 = 0 then 1
      else
        let n = n0 - 1;
            n = n OR drop_bit 1 n;
            n = n OR drop_bit 2 n;
            n = n OR drop_bit 4 n;
            n = n OR drop_bit 8 n;
            n = n OR drop_bit 16 n;
            n = n OR drop_bit 32 n
        in n + 1)"

text \<open>
  \<^verbatim>\<open>new T[n]\<close>: the allocator hands out at most \<open>lim\<close> slots and throws
  \<^verbatim>\<open>std::bad_alloc\<close> beyond that; slot \<open>i\<close> of a fresh array holds \<open>fill i\<close> (the
  default-initialised, possibly indeterminate, value). A request for no slot at all
  succeeds with an array of length 0.
\<close>

definition new_array :: "nat \<Rightarrow> (nat \<Rightarrow> 'a) \<Rightarrow> nat \<Rightarrow> error + 'a list" where
  "new_array lim fill n = (if n \<le> lim then Inr (map fill [0..<n]) else Inl BadAlloc)"

text \<open>
  The constructor, lines 99-107. The member initialisers run in declaration order:
  \<^verbatim>\<open>capacity_\<close>, \<^verbatim>\<open>index_mask_\<close>, then \<^verbatim>\<open>buffer_(new T[capacity_])\<close>, and only then
  the body, whose guard raises \<^verbatim>\<open>capacity_\<close> to 2 and \<^verbatim>\<open>index_mask_\<close> to 1. The array
  has been allocated by then and is not allocated again.
\<close>

definition construct :: "nat \<Rightarrow> (nat \<Rightarrow> 'a) \<Rightarrow> size_t \<Rightarrow> error + 'a SPSCRingBuffer" where
  "construct lim fill capacity =
     (let capacity0 = next_power_of_2 (if capacity > 0 then capacity else 1);
          index_mask0 = capacity0 - 1
      in case new_array lim fill (unat capacity0) of
           Inl e \<Rightarrow> Inl e
         | Inr buf \<Rightarrow>
             Inr (let s = \<lparr>m_capacity = capacity0, m_index_mask = index_mask0, m_buffer = buf,
                           m_head = 0, m_tail_cache = 0, m_tail = 0, m_head_cache = 0\<rparr>
                  in if m_capacity s < 2 then s\<lparr>m_capacity := 2, m_index_mask := 1\<rparr> else s))"

subsection \<open>Producer\<close>

text \<open>
  \<^verbatim>\<open>try_push(const T&)\<close>, lines 128-144. The refresh of \<^verbatim>\<open>head_cache_\<close> happens before
  the second comparison; \<^verbatim>\<open>buffer_[current_tail]\<close> is a checked access here, and an
  index outside the allocated array is the error \<open>OutOfBounds\<close> (undefined behaviour in
  the source).
\<close>

definition try_push :: "'a \<Rightarrow> 'a SPSCRingBuffer \<Rightarrow> error + (bool \<times> 'a SPSCRingBuffer)" where
  "try_push item s =
     (let current_tail = m_tail s;
          next_tail = (current_tail + 1) AND m_index_mask s;
          s1 = (if next_tail = m_head_cache s then s\<lparr>m_head_cache := m_head s\<rparr> else s)
      in if next_tail = m_head_cache s \<and> next_tail = m_head_cache s1 then Inr (False, s1)
         else if unat current_tail < length (m_buffer s1)
         then Inr (True, s1\<lparr>m_buffer := (m_buffer s1)[unat current_tail := item],
                             m_tail := next_tail\<rparr>)
         else Inl OutOfBounds)"

text \<open>
  \<^verbatim>\<open>try_push(T&&)\<close>, lines 152-168: the same steps; the source object that is moved
  from belongs to the caller and is no part of the buffer's state.
\<close>

definition try_push_move :: "'a \<Rightarrow> 'a SPSCRingBuffer \<Rightarrow> error + (bool \<times> 'a SPSCRingBuffer)" where
  "try_push_move item s =
     (let current_tail = m_tail s;
          next_tail = (current_tail + 1) AND m_index_mask s;
          s1 = (if next_tail = m_head_cache s then s\<lparr>m_head_cache := m_head s\<rparr> else s)
      in if next_tail = m_head_cache s \<and> next_tail = m_head_cache s1 then Inr (False, s1)
         else if unat current_tail < length (m_buffer s1)
         then Inr (True, s1\<lparr>m_buffer := (m_buffer s1)[unat current_tail := item],
                             m_tail := next_tail\<rparr>)
         else Inl OutOfBounds)"

subsection \<open>Consumer\<close>

text \<open>
  \<^verbatim>\<open>front()\<close>, lines 176-187. The returned pointer \<^verbatim>\<open>&buffer_[current_head]\<close> is the
  index of the slot, \<open>None\<close> is \<^verbatim>\<open>nullptr\<close>.
\<close>

definition front :: "'a SPSCRingBuffer \<Rightarrow> error + (nat option \<times> 'a SPSCRingBuffer)" where
  "front s =
     (let current_head = m_head s;
          s1 = (if current_head = m_tail_cache s then s\<lparr>m_tail_cache := m_tail s\<rparr> else s)
      in if current_head = m_tail_cache s \<and> current_head = m_tail_cache s1 then Inr (None, s1)
         else if unat current_head < length (m_buffer s1)
         then Inr (Some (unat current_head), s1)
         else Inl OutOfBounds)"

text \<open>\<^verbatim>\<open>pop()\<close>, lines 193-197: no check at all.\<close>

definition pop :: "'a SPSCRingBuffer \<Rightarrow> 'a SPSCRingBuffer" where
  "pop s = (let current_head = m_head s
            in s\<lparr>m_head := (current_head + 1) AND m_index_mask s\<rparr>)"

text \<open>
  \<^verbatim>\<open>try_pop()\<close>, lines 206-222. \<^verbatim>\<open>T item = std::move(buffer_[current_head])\<close> leaves
  the slot in its moved-from state, \<open>mv\<close> of the old value (the identity for a
  trivially copyable \<^verbatim>\<open>T\<close>).
\<close>

definition try_pop :: "('a \<Rightarrow> 'a) \<Rightarrow> 'a SPSCRingBuffer \<Rightarrow> error + ('a option \<times> 'a SPSCRingBuffer)" where
  "try_pop mv s =
     (let current_head = m_head s;
          s1 = (if current_head = m_tail_cache s then s\<lparr>m_tail_cache := m_tail s\<rparr> else s)
      in if current_head = m_tail_cache s \<and> current_head = m_tail_cache s1 then Inr (None, s1)
         else if unat current_head < length (m_buffer s1)
         then let item = m_buffer s1 ! unat current_head
              in Inr (Some item,
                      s1\<lparr>m_buffer := (m_buffer s1)[unat current_head := mv item],
                         m_head := (current_head + 1) AND m_index_mask s1\<rparr>)
         else Inl OutOfBounds)"

subsection \<open>Diagnostics and accessors\<close>

text \<open>
  Lines 230-276. \<^verbatim>\<open>empty()\<close> and \<^verbatim>\<open>size()\<close> are \<open>empty_rb\<close> and \<open>size_rb\<close>: the plain
  names are constants of HOL.
\<close>

definition empty_rb :: "'a SPSCRingBuffer \<Rightarrow> bool" where
  "empty_rb s = (m_head s = m_tail s)"

definition full :: "'a SPSCRingBuffer \<Rightarrow> bool" where
  "full s = (let next_tail = (m_tail s + 1) AND m_index_mask s in next_tail = m_head s)"

definition size_rb :: "'a SPSCRingBuffer \<Rightarrow> size_t" where
  "size_rb s = (let head = m_head s; tail = m_tail s in (tail - head) AND m_index_mask s)"

definition capacity :: "'a SPSCRingBuffer \<Rightarrow> size_t" where
  "capacity s = m_capacity s - 1"

definition buffer_size :: "'a SPSCRingBuffer \<Rightarrow> size_t" where
  "buffer_size s = m_capacity s"

section \<open>Sequences of calls\<close>

text \<open>
  The consumer's pairing of \<^verbatim>\<open>front()\<close> with \<^verbatim>\<open>pop()\<close>, as in the usage example of
  the README: \<^verbatim>\<open>if (auto* val = q.front()) { process(*val); q.pop(); }\<close>. The value
  is read through the returned pointer before \<^verbatim>\<open>pop()\<close>.
\<close>

definition front_then_pop :: "'a SPSCRingBuffer \<Rightarrow> error + ('a option \<times> 'a SPSCRingBuffer)" where
  "front_then_pop s =
     (case front s of
        Inl e \<Rightarrow> Inl e
      | Inr (None, s1) \<Rightarrow> Inr (None, s1)
      | Inr (Some i, s1) \<Rightarrow> Inr (Some (m_buffer s1 ! i), pop s1))"

text \<open>
  One call of the public interface, and what the caller gets back. A successful
  \<^verbatim>\<open>front()\<close> is followed by the read of the slot it points to.
\<close>

datatype 'a api_call = Push 'a | PushMove 'a | Front | Pop | TryPop

datatype 'a ret = PushRet 'a bool | FrontRet "'a option" | PopRet | TryPopRet "'a option"

fun call :: "('a \<Rightarrow> 'a) \<Rightarrow> 'a api_call \<Rightarrow> 'a SPSCRingBuffer \<Rightarrow> error + ('a ret \<times> 'a SPSCRingBuffer)" where
  "call mv (Push v) s =
     (case try_push v s of Inl e \<Rightarrow> Inl e | Inr (b, s1) \<Rightarrow> Inr (PushRet v b, s1))"
| "call mv (PushMove v) s =
     (case try_push_move v s of Inl e \<Rightarrow> Inl e | Inr (b, s1) \<Rightarrow> Inr (PushRet v b, s1))"
| "call mv Front s =
     (case front s of
        Inl e \<Rightarrow> Inl e
      | Inr (None, s1) \<Rightarrow> Inr (FrontRet None, s1)
      | Inr (Some i, s1) \<Rightarrow> Inr (FrontRet (Some (m_buffer s1 ! i)), s1))"
| "call mv Pop s = Inr (PopRet, pop s)"
| "call mv TryPop s =
     (case try_pop mv s of Inl e \<Rightarrow> Inl e | Inr (r, s1) \<Rightarrow> Inr (TryPopRet r, s1))"

text \<open>
  A sequence of calls made one after the other on one thread. It stops at the first
  access outside the array, as nothing is defined after it.
\<close>

fun run :: "('a \<Rightarrow> 'a) \<Rightarrow> 'a api_call list \<Rightarrow> 'a SPSCRingBuffer \<Rightarrow> error + ('a ret list \<times> 'a SPSCRingBuffer)" where
  "run mv [] s = Inr ([], s)"
| "run mv (c # cs) s =
     (case call mv c s of
        Inl e \<Rightarrow> Inl e
      | Inr (r, s1) \<Rightarrow>
          (case run mv cs s1 of Inl e \<Rightarrow> Inl e | Inr (rs, s2) \<Rightarrow> Inr (r # rs, s2)))"

text \<open>The values of the successful pushes of a run, in the order of the calls.\<close>

fun produced :: "'a ret list \<Rightarrow> 'a list" where
  "produced [] = []"
| "produced (PushRet v True # rs) = v # produced rs"
| "produced (r # rs) = produced rs"

text \<open>
  The values the consumer takes out, in the order of the calls: the value of a
  successful \<^verbatim>\<open>try_pop()\<close>, and at a \<^verbatim>\<open>pop()\<close> the value read at the last successful
  \<^verbatim>\<open>front()\<close> (\<open>p\<close>, forgotten once an element is removed).
\<close>

fun consumed :: "'a option \<Rightarrow> 'a ret list \<Rightarrow> 'a list" where
  "consumed p [] = []"
| "consumed p (PushRet v b # rs) = consumed p rs"
| "consumed p (FrontRet (Some v) # rs) = consumed (Some v) rs"
| "consumed p (FrontRet None # rs) = consumed p rs"
| "consumed p (PopRet # rs) = (case p of Some v \<Rightarrow> v # consumed None rs | None \<Rightarrow> consumed None rs)"
| "consumed p (TryPopRet (Some v) # rs) = v # consumed None rs"
| "consumed p (TryPopRet None # rs) = consumed p rs"

text \<open>
  The precondition of \<^verbatim>\<open>pop()\<close>: it is only called after a successful \<^verbatim>\<open>front()\<close>,
  with no element removed in between (\<open>ok\<close> says that such a \<^verbatim>\<open>front()\<close> is pending).
\<close>

fun pop_follows_front :: "bool \<Rightarrow> 'a ret list \<Rightarrow> bool" where
  "pop_follows_front ok [] = True"
| "pop_follows_front ok (PushRet v b # rs) = pop_follows_front ok rs"
| "pop_follows_front ok (FrontRet (Some v) # rs) = pop_follows_front True rs"
| "pop_follows_front ok (FrontRet None # rs) = pop_follows_front ok rs"
| "pop_follows_front ok (PopRet # rs) = (ok \<and> pop_follows_front False rs)"
| "pop_follows_front ok (TryPopRet (Some v) # rs) = pop_follows_front False rs"
| "pop_follows_front ok (TryPopRet None # rs) = pop_follows_front ok rs"

section \<open>The ring as a window on the pushed values\<close>

text \<open>
  What ties the indices to the history of a run: \<open>pushed\<close> are the values of the
  successful pushes so far and \<open>h\<close> is the number of elements removed so far. The tail
  is \<open>length pushed\<close> and the head is \<open>h\<close>, both modulo the \<open>2 ^ k\<close> slots that
  \<^verbatim>\<open>index_mask_\<close> wraps to; \<^verbatim>\<open>head_cache_\<close> is an earlier head \<open>hc\<close> and \<^verbatim>\<open>tail_cache_\<close> an
  earlier tail \<open>tc\<close>; fewer than \<open>2 ^ k\<close> pushes lie between \<open>hc\<close> and the tail; and the
  slots from head to tail hold \<open>pushed ! h\<close>, \<open>pushed ! (h + 1)\<close>, ... inside the allocated
  array.
\<close>

definition rb_inv :: "nat \<Rightarrow> 'a SPSCRingBuffer \<Rightarrow> 'a list \<Rightarrow> nat \<Rightarrow> nat \<Rightarrow> nat \<Rightarrow> bool" where
  "rb_inv k s pushed h hc tc \<longleftrightarrow>
     k \<le> 63 \<and> m_index_mask s = mask k \<and>
     unat (m_head s) = h mod 2 ^ k \<and> unat (m_tail s) = length pushed mod 2 ^ k \<and>
     unat (m_head_cache s) = hc mod 2 ^ k \<and> unat (m_tail_cache s) = tc mod 2 ^ k \<and>
     hc \<le> h \<and> h \<le> tc \<and> tc \<le> length pushed \<and> length pushed < hc + 2 ^ k \<and>
     (\<forall>i. h \<le> i \<and> i < length pushed \<longrightarrow>
        i mod 2 ^ k < length (m_buffer s) \<and> m_buffer s ! (i mod 2 ^ k) = pushed ! i)"

section \<open>Rounding up to a power of two\<close>

text \<open>Bits of a word against its value.\<close>

lemma nat_bit_le: "bit (n::nat) j \<Longrightarrow> 2 ^ j \<le> n"
  by (rule ccontr) (simp add: bit_iff_odd not_le)

lemma word_lt_pow_if_no_bits:
  fixes x :: "'a::len word"
  assumes "\<And>j. bit x j \<Longrightarrow> j < m"
  shows "unat x < 2 ^ m"
proof -
  have "take_bit m x = x"
    by (rule bit_eqI) (auto simp add: bit_take_bit_iff dest: assms)
  then have "unat x = take_bit m (unat x)"
    by (metis unsigned_take_bit_eq)
  then show ?thesis
    by (metis take_bit_nat_less_exp)
qed

lemma word_bit_le:
  fixes x :: "'a::len word"
  shows "bit x j \<Longrightarrow> 2 ^ j \<le> unat x"
  by (rule nat_bit_le) (simp add: bit_unsigned_iff)

lemma ex_top_bit:
  fixes x :: "'a::len word"
  shows "\<exists>m\<le>LENGTH('a). (\<forall>j. bit x j \<longrightarrow> j < m) \<and> (0 < m \<longrightarrow> bit x (m - 1))"
proof (cases "x = 0")
  case True
  then show ?thesis by (intro exI [of _ 0]) simp
next
  case False
  let ?S = "{j. bit x j}"
  have fin: "finite ?S" by simp
  have ne: "?S \<noteq> {}" using False by (auto simp add: bit_eq_iff)
  have top: "bit x (Max ?S)" using Max_in [OF fin ne] by simp
  have bound: "j \<le> Max ?S" if "bit x j" for j using that fin by (simp add: Max_ge)
  show ?thesis
  proof (intro exI [of _ "Suc (Max ?S)"] conjI allI impI)
    show "Suc (Max ?S) \<le> LENGTH('a)"
      using bit_imp_le_length [OF top] by simp
    show "j < Suc (Max ?S)" if "bit x j" for j using bound [OF that] by simp
    show "bit x (Suc (Max ?S) - 1)" using top by simp
  qed
qed

text \<open>
  One line \<^verbatim>\<open>n |= n >> m\<close> doubles the length of the run of positions above \<open>i\<close>
  that bit \<open>i\<close> collects.
\<close>

lemma smear_step:
  fixes a x :: "'a::len word"
  assumes "\<And>i. bit a i \<longleftrightarrow> (\<exists>d<m. bit x (i + d))"
  shows "bit (a OR drop_bit m a) i \<longleftrightarrow> (\<exists>d<2 * m. bit x (i + d))"
proof -
  have "bit (a OR drop_bit m a) i \<longleftrightarrow> bit a i \<or> bit a (m + i)"
    by (simp add: bit_or_iff bit_drop_bit_eq)
  also have "\<dots> \<longleftrightarrow> (\<exists>d<m. bit x (i + d)) \<or> (\<exists>d<m. bit x (i + (m + d)))"
    by (simp add: assms add.assoc add.left_commute add.commute)
  also have "\<dots> \<longleftrightarrow> (\<exists>d<2 * m. bit x (i + d))"
  proof
    assume "(\<exists>d<m. bit x (i + d)) \<or> (\<exists>d<m. bit x (i + (m + d)))"
    then show "\<exists>d<2 * m. bit x (i + d)"
    proof
      assume "\<exists>d<m. bit x (i + d)"
      then obtain d where "d < m" "bit x (i + d)" by blast
      then show ?thesis by (intro exI [of _ d]) simp
    next
      assume "\<exists>d<m. bit x (i + (m + d))"
      then obtain d where "d < m" "bit x (i + (m + d))" by blast
      then show ?thesis by (intro exI [of _ "m + d"]) simp
    qed
  next
    assume "\<exists>d<2 * m. bit x (i + d)"
    then obtain d where d: "d < 2 * m" "bit x (i + d)" by blast
    show "(\<exists>d<m. bit x (i + d)) \<or> (\<exists>d<m. bit x (i + (m + d)))"
    proof (cases "d < m")
      case True
      with d show ?thesis by blast
    next
      case False
      with d have "d - m < m" "bit x (i + (m + (d - m)))" by simp_all
      then show ?thesis by blast
    qed
  qed
  finally show ?thesis .
qed

lemma next_power_of_2_smear:
  assumes "n \<noteq> 0"
  obtains a :: size_t where "next_power_of_2 n = a + 1"
    and "\<And>i. bit a i \<longleftrightarrow> (\<exists>d<64. bit (n - 1) (i + d))"
proof -
  define a0 where "a0 = n - 1"
  define a1 where "a1 = a0 OR drop_bit 1 a0"
  define a2 where "a2 = a1 OR drop_bit 2 a1"
  define a3 where "a3 = a2 OR drop_bit 4 a2"
  define a4 where "a4 = a3 OR drop_bit 8 a3"
  define a5 where "a5 = a4 OR drop_bit 16 a4"
  define a6 where "a6 = a5 OR drop_bit 32 a5"
  have b0: "bit a0 i \<longleftrightarrow> (\<exists>d<1. bit a0 (i + d))" for i by simp
  have b1: "bit a1 i \<longleftrightarrow> (\<exists>d<2. bit a0 (i + d))" for i
    unfolding a1_def using smear_step [of a0 1 a0 i, OF b0] by simp
  have b2: "bit a2 i \<longleftrightarrow> (\<exists>d<4. bit a0 (i + d))" for i
    unfolding a2_def using smear_step [of a1 2 a0 i, OF b1] by simp
  have b3: "bit a3 i \<longleftrightarrow> (\<exists>d<8. bit a0 (i + d))" for i
    unfolding a3_def using smear_step [of a2 4 a0 i, OF b2] by simp
  have b4: "bit a4 i \<longleftrightarrow> (\<exists>d<16. bit a0 (i + d))" for i
    unfolding a4_def using smear_step [of a3 8 a0 i, OF b3] by simp
  have b5: "bit a5 i \<longleftrightarrow> (\<exists>d<32. bit a0 (i + d))" for i
    unfolding a5_def using smear_step [of a4 16 a0 i, OF b4] by simp
  have b6: "bit a6 i \<longleftrightarrow> (\<exists>d<64. bit a0 (i + d))" for i
    unfolding a6_def using smear_step [of a5 32 a0 i, OF b5] by simp
  have "next_power_of_2 n = a6 + 1"
    using assms
    by (simp add: next_power_of_2_def Let_def a0_def a1_def a2_def a3_def a4_def a5_def a6_def)
  then show thesis
    using b6 unfolding a0_def by (rule that)
qed

lemma next_power_of_2_pow2:
  assumes "n \<noteq> 0"
  shows "\<exists>m\<le>64. next_power_of_2 n = 2 ^ m \<and> unat n \<le> 2 ^ m \<and> 2 ^ m < 2 * unat n"
proof -
  obtain a where np: "next_power_of_2 n = a + 1"
    and bits: "\<And>i. bit a i \<longleftrightarrow> (\<exists>d<64. bit (n - 1) (i + d))"
    using next_power_of_2_smear [OF assms] by blast
  obtain m where m: "m \<le> 64" "\<And>j. bit (n - 1) j \<Longrightarrow> j < m" "0 < m \<Longrightarrow> bit (n - 1) (m - 1)"
    using ex_top_bit [of "n - 1"] by auto
  have "a = mask m"
  proof (rule bit_eqI)
    fix i
    have "(\<exists>d<64. bit (n - 1) (i + d)) \<longleftrightarrow> i < m"
    proof
      assume "\<exists>d<64. bit (n - 1) (i + d)"
      then obtain d where "bit (n - 1) (i + d)" by blast
      from m(2) [OF this] show "i < m" by simp
    next
      assume "i < m"
      then have "bit (n - 1) (i + (m - 1 - i))" "m - 1 - i < 64"
        using m(1) m(3) by simp_all
      then show "\<exists>d<64. bit (n - 1) (i + d)" by blast
    qed
    then show "bit a i \<longleftrightarrow> bit (mask m :: size_t) i"
      using m(1) by (auto simp add: bits bit_mask_iff)
  qed
  then have pow: "next_power_of_2 n = 2 ^ m"
    by (simp add: np mask_eq_exp_minus_1)
  have un: "unat n = unat (n - 1) + 1"
    using assms by (simp add: unat_minus_one unat_gt_0 Suc_leI)
  have lt: "unat (n - 1) < 2 ^ m"
    by (rule word_lt_pow_if_no_bits) (rule m(2))
  have "2 ^ m < 2 * unat n"
  proof (cases "m = 0")
    case True
    then show ?thesis using un by simp
  next
    case False
    then have "2 ^ (m - 1) \<le> unat (n - 1)"
      using m(3) by (intro word_bit_le) simp
    moreover have "(2::nat) ^ m = 2 * 2 ^ (m - 1)"
      using False by (cases m) simp_all
    ultimately show ?thesis using un by simp
  qed
  with pow lt un m(1) show ?thesis
    by (intro exI [of _ m]) simp
qed

section \<open>The freshly constructed buffer\<close>

lemma unat_pow2_64: "m < 64 \<Longrightarrow> unat (2 ^ m :: size_t) = 2 ^ m"
proof -
  assume m: "m < 64"
  have "(2 ^ m :: size_t) = of_nat (2 ^ m)" by simp
  then have "unat (2 ^ m :: size_t) = 2 ^ m mod 2 ^ 64"
    by (simp only: unat_of_nat len_of_numeral_defs) simp
  moreover have "(2::nat) ^ m < 2 ^ 64" using m by (intro power_strict_increasing) simp_all
  ultimately show ?thesis by (simp del: power_strict_increasing_iff)
qed

lemma requested_nonzero: "(if c > 0 then c else 1) = max c (1::size_t)" "max c (1::size_t) \<noteq> 0"
  by (auto simp add: max_def word_gt_0 word_le_nat_alt word_unat_eq_iff not_le)

lemma unat_max_one: "unat (max c (1::size_t)) = max (unat c) 1"
  by (auto simp add: max_def word_le_nat_alt)

lemma unat_mask_64: "k \<le> 63 \<Longrightarrow> unat (mask k :: size_t) = 2 ^ k - 1"
proof -
  assume k: "k \<le> 63"
  then have "unat (2 ^ k :: size_t) = 2 ^ k" by (intro unat_pow2_64) simp
  moreover have "(2 ^ k :: size_t) \<noteq> 0"
    using calculation by (metis power_not_zero unsigned_0 zero_neq_numeral)
  ultimately show ?thesis by (simp add: mask_eq_exp_minus_1 unat_minus_one)
qed

lemma construct_fields:
  assumes "construct lim fill c = Inr s"
  defines "p \<equiv> next_power_of_2 (if c > 0 then c else 1)"
  shows "m_head s = 0" and "m_tail s = 0" and "m_head_cache s = 0" and "m_tail_cache s = 0"
    and "m_buffer s = map fill [0..<unat p]"
    and "m_capacity s = (if p < 2 then 2 else p)"
    and "m_index_mask s = (if p < 2 then 1 else p - 1)"
  using assms
  by (auto simp add: construct_def new_array_def Let_def split: if_splits)

lemma construct_shape:
  assumes "construct lim fill c = Inr s"
  shows "\<exists>k. 1 \<le> k \<and> k \<le> 63 \<and> m_index_mask s = mask k \<and> m_capacity s = 2 ^ k \<and>
             (1 < c \<and> c \<le> 2 ^ 63 \<longrightarrow> length (m_buffer s) = 2 ^ k)"
proof -
  define n where "n = max c 1"
  define p where "p = next_power_of_2 n"
  have n0: "n \<noteq> 0" and nif: "(if c > 0 then c else 1) = n"
    by (simp_all add: n_def requested_nonzero)
  have un: "unat n = max (unat c) 1" by (simp add: n_def unat_max_one)
  obtain m where m: "m \<le> 64" "p = 2 ^ m" "unat n \<le> 2 ^ m" "2 ^ m < 2 * unat n"
    using next_power_of_2_pow2 [OF n0] unfolding p_def by blast
  note f = construct_fields [OF assms, unfolded nif, folded p_def]
  have c63: "unat c \<le> 2 ^ 63" if "c \<le> 2 ^ 63"
    using that unat_pow2_64 [of 63] by (simp add: word_le_nat_alt)
  consider "m = 0" | "m = 64" | "1 \<le> m" "m \<le> 63"
    using m(1) by linarith
  then show ?thesis
  proof cases
    case 1
    then have p1: "p = 1" and "unat n = 1" using m by simp_all
    then have "\<not> 1 < c" using un by (simp add: word_less_nat_alt max_def split: if_splits)
    then show ?thesis using f p1 by (intro exI [of _ 1]) (simp add: mask_eq_exp_minus_1)
  next
    case 2
    then have p0: "p = 0" using m(2) by simp
    have "(2::nat) ^ 64 = 2 * 2 ^ 63" by simp
    then have "2 ^ 63 < unat n" using m(4) 2 by (simp del: power_numeral)
    then have "\<not> c \<le> 2 ^ 63"
      using un c63 by (auto simp add: max_def simp del: power_numeral split: if_splits)
    then show ?thesis using f p0 by (intro exI [of _ 1]) (simp add: mask_eq_exp_minus_1)
  next
    case 3
    then have u: "unat p = 2 ^ m" using m(2) by (simp add: unat_pow2_64)
    have "(2::nat) ^ 1 \<le> 2 ^ m" using 3 by (intro power_increasing) simp_all
    then have np: "\<not> p < 2" using u by (simp add: word_less_nat_alt)
    show ?thesis
    proof (intro exI [of _ m] conjI impI)
      show "m_index_mask s = mask m" using f(7) np m(2) by (simp add: mask_eq_exp_minus_1)
      show "m_capacity s = 2 ^ m" using f(6) np m(2) by simp
      show "length (m_buffer s) = 2 ^ m" using f(5) u by simp
    qed (use 3 in simp_all)
  qed
qed

section \<open>Capacity\<close>

text \<open>
  C1, as amended. For a request \<open>c\<close> of at most \<open>2 ^ 63\<close> on which construction succeeds,
  \<^verbatim>\<open>capacity()\<close> is \<open>max p 2 - 1\<close>, where \<open>p = 2 ^ k\<close> is the least power of two that is not
  below \<open>max c 1\<close>, and it is never less than 1. The guard of the constructor is what lifts
  a slot count below 2 to 2, so a request of 0 or 1 has \<^verbatim>\<open>capacity()\<close> 1, not 0. Nothing is
  said here about a request above \<open>2 ^ 63\<close>.
\<close>

theorem capacity_rounding:
  assumes "construct lim fill c = Inr s" and "c \<le> 2 ^ 63"
  shows "\<exists>k\<le>63. unat (max c 1) \<le> 2 ^ k \<and> (\<forall>j. unat (max c 1) \<le> 2 ^ j \<longrightarrow> k \<le> j) \<and>
           unat (capacity s) = max (2 ^ k) 2 - 1 \<and> 1 \<le> unat (capacity s)"
proof -
  obtain m where m: "m \<le> 64" "next_power_of_2 (max c 1) = 2 ^ m"
      "unat (max c 1) \<le> 2 ^ m" "2 ^ m < 2 * unat (max c 1)"
    using next_power_of_2_pow2 [OF requested_nonzero(2), of c] by blast
  have "unat c \<le> 2 ^ 63" using assms(2) unat_pow2_64 [of 63] by (simp add: word_le_nat_alt)
  then have "unat (max c 1) \<le> 2 ^ 63" by (simp add: unat_max_one del: power_numeral)
  then have "2 * unat (max c 1) \<le> 2 * 2 ^ 63" by (rule mult_le_mono2)
  with m(4) have "(2::nat) ^ m < 2 * 2 ^ 63" by (rule less_le_trans)
  then have "(2::nat) ^ m < 2 ^ Suc 63" by (simp only: power_Suc)
  then have "m < Suc 63" by (rule power_less_imp_less_exp [rotated]) simp
  then have m63: "m \<le> 63" by simp
  have least: "m \<le> j" if "unat (max c 1) \<le> 2 ^ j" for j
  proof -
    from that have "2 * unat (max c 1) \<le> 2 * 2 ^ j" by (rule mult_le_mono2)
    with m(4) have "(2::nat) ^ m < 2 * 2 ^ j" by (rule less_le_trans)
    then have "(2::nat) ^ m < 2 ^ Suc j" by (simp only: power_Suc)
    then have "m < Suc j" by (rule power_less_imp_less_exp [rotated]) simp
    then show ?thesis by simp
  qed
  note f = construct_fields(6) [OF assms(1), unfolded requested_nonzero(1) m(2)]
  have cap: "unat (capacity s) = max (2 ^ m) 2 - 1"
  proof (cases "m = 0")
    case True
    then have "m_capacity s = 2" using f by simp
    then show ?thesis using True by (simp add: capacity_def)
  next
    case False
    then have ge: "(2::nat) ^ 1 \<le> 2 ^ m" by (intro power_increasing) simp_all
    have u: "unat (2 ^ m :: size_t) = 2 ^ m" using m63 by (intro unat_pow2_64) simp
    then have "\<not> (2 ^ m :: size_t) < 2" using ge by (simp add: word_less_nat_alt)
    then have "capacity s = mask m" using f by (simp add: capacity_def mask_eq_exp_minus_1)
    then have "unat (capacity s) = 2 ^ m - 1" using m63 by (simp add: unat_mask_64)
    moreover have "max ((2::nat) ^ m) 2 = 2 ^ m" using ge by simp
    ultimately show ?thesis by simp
  qed
  have "2 \<le> max ((2::nat) ^ m) 2" by simp
  then have "1 \<le> unat (capacity s)" unfolding cap by linarith
  with m63 m(3) least cap show ?thesis by (intro exI [of _ m]) simp
qed

text \<open>A request of 5: the least power of two is \<open>2 ^ 3\<close>, \<^verbatim>\<open>capacity()\<close> is 7.\<close>

theorem capacity_rounding_witness:
  "construct 8 id 5 =
     Inr \<lparr>m_capacity = 8, m_index_mask = 7, m_buffer = [0, 1, 2, 3, 4, 5, 6, 7 :: nat],
          m_head = 0, m_tail_cache = 0, m_tail = 0, m_head_cache = 0\<rparr> \<and>
   (5 :: size_t) \<le> 2 ^ 63 \<and> unat (max 5 1 :: size_t) \<le> 2 ^ 3 \<and>
   unat (capacity \<lparr>m_capacity = 8, m_index_mask = 7, m_buffer = [0, 1, 2, 3, 4, 5, 6, 7 :: nat],
          m_head = 0, m_tail_cache = 0, m_tail = 0, m_head_cache = 0\<rparr>) = max (2 ^ 3) 2 - 1 \<and>
   capacity \<lparr>m_capacity = 8, m_index_mask = 7, m_buffer = [0, 1, 2, 3, 4, 5, 6, 7 :: nat],
          m_head = 0, m_tail_cache = 0, m_tail = 0, m_head_cache = 0\<rparr> = 7"
proof -
  let ?s = "\<lparr>m_capacity = 8, m_index_mask = 7, m_buffer = [0, 1, 2, 3, 4, 5, 6, 7 :: nat],
          m_head = 0, m_tail_cache = 0, m_tail = 0, m_head_cache = 0\<rparr>"
  have c: "construct 8 id 5 = Inr ?s"
    by code_simp
  have le: "(5 :: size_t) \<le> 2 ^ 63" by simp
  have u: "unat (max 5 1 :: size_t) = 5" by simp
  from capacity_rounding [OF c le] obtain k where
    a: "5 \<le> (2::nat) ^ k" and l: "\<And>j. 5 \<le> (2::nat) ^ j \<Longrightarrow> k \<le> j"
    and cap: "unat (capacity ?s) = max (2 ^ k) 2 - 1"
    unfolding u by blast
  have "k \<le> 3" by (rule l) simp
  then have "k = 0 \<or> k = 1 \<or> k = 2 \<or> k = 3" by linarith
  with a have "k = 3" by auto
  with cap c le u show ?thesis by (simp add: capacity_def)
qed

text \<open>
  C1 as the specification states it fails at a request of 1: \<^verbatim>\<open>capacity()\<close> is 1, while
  \<open>next_power_of_2 (max 1 1) - 1\<close> is 0.
\<close>

theorem capacity_rounding_counterexample:
  "construct 8 id 1 =
     Inr \<lparr>m_capacity = 2, m_index_mask = 1, m_buffer = [0 :: nat],
          m_head = 0, m_tail_cache = 0, m_tail = 0, m_head_cache = 0\<rparr> \<and>
   capacity \<lparr>m_capacity = 2, m_index_mask = 1, m_buffer = [0 :: nat],
          m_head = 0, m_tail_cache = 0, m_tail = 0, m_head_cache = 0\<rparr> = 1 \<and>
   next_power_of_2 (max 1 1) - 1 = 0"
  by (simp add: construct_def new_array_def next_power_of_2_def capacity_def)

text \<open>
  C2 at a request of 1 or 0: the array is allocated with the single slot that
  \<open>next_power_of_2 1 = 1\<close> asks for, before the guard of the constructor sets \<^verbatim>\<open>capacity_\<close>
  to 2, and \<^verbatim>\<open>buffer_size()\<close> then reports 2 slots.
\<close>

theorem allocated_length_requested_1:
  "construct 8 id 1 =
     Inr \<lparr>m_capacity = 2, m_index_mask = 1, m_buffer = [0 :: nat],
          m_head = 0, m_tail_cache = 0, m_tail = 0, m_head_cache = 0\<rparr> \<and>
   construct 8 id 0 =
     Inr \<lparr>m_capacity = 2, m_index_mask = 1, m_buffer = [0 :: nat],
          m_head = 0, m_tail_cache = 0, m_tail = 0, m_head_cache = 0\<rparr> \<and>
   length (m_buffer \<lparr>m_capacity = 2, m_index_mask = 1, m_buffer = [0 :: nat],
          m_head = 0, m_tail_cache = 0, m_tail = 0, m_head_cache = 0\<rparr>) = 1 \<and>
   buffer_size \<lparr>m_capacity = 2, m_index_mask = 1, m_buffer = [0 :: nat],
          m_head = 0, m_tail_cache = 0, m_tail = 0, m_head_cache = 0\<rparr> = 2"
  by (simp add: construct_def new_array_def next_power_of_2_def buffer_size_def)

section \<open>Single calls\<close>

text \<open>The two overloads of \<^verbatim>\<open>try_push\<close> do the same to the buffer.\<close>

lemma try_push_move_eq: "try_push_move item s = try_push item s"
  by (simp add: try_push_move_def try_push_def)

text \<open>
  C6. In every state \<^verbatim>\<open>try_pop()\<close> returns what \<^verbatim>\<open>front()\<close> followed by the read of the slot
  and \<^verbatim>\<open>pop()\<close> returns (the same error, the same empty result with the same state, or
  the same value), and it leaves the same state but for the slot it moved the value out
  of, which holds \<open>mv\<close> of that value; for a type whose move is a copy the two states are
  equal.
\<close>

theorem try_pop_is_front_then_pop:
  "try_pop mv s =
     (case front_then_pop s of
        Inr (Some v, s2) \<Rightarrow> Inr (Some v, s2\<lparr>m_buffer := (m_buffer s2)[unat (m_head s) := mv v]\<rparr>)
      | r \<Rightarrow> r) \<and>
   try_pop id s = front_then_pop s"
  by (simp add: try_pop_def front_then_pop_def front_def pop_def Let_def)

text \<open>
  C8. When the slot after \<^verbatim>\<open>tail_\<close> is both the cached head and the head, \<^verbatim>\<open>try_push\<close>
  (either overload) returns false and the state after the call is the state before it;
  and whenever \<^verbatim>\<open>try_push\<close> returns false, the buffer is full and the state is unchanged.
\<close>

theorem try_push_full_no_side_effect:
  "(full s \<and> (m_tail s + 1) AND m_index_mask s = m_head_cache s \<longrightarrow>
      try_push item s = Inr (False, s) \<and> try_push_move item s = Inr (False, s)) \<and>
   (try_push item s = Inr (False, s') \<or> try_push_move item s = Inr (False, s') \<longrightarrow>
      s' = s \<and> full s)"
  by (auto simp add: try_push_def try_push_move_eq full_def Let_def split: if_splits)

theorem try_push_full_no_side_effect_witness:
  "full \<lparr>m_capacity = 2, m_index_mask = 1, m_buffer = [10 :: nat],
         m_head = 0, m_tail_cache = 0, m_tail = 1, m_head_cache = 0\<rparr> \<and>
   (m_tail \<lparr>m_capacity = 2, m_index_mask = 1, m_buffer = [10 :: nat],
         m_head = 0, m_tail_cache = 0, m_tail = 1, m_head_cache = 0\<rparr> + 1) AND 1 = (0 :: size_t) \<and>
   try_push 11 \<lparr>m_capacity = 2, m_index_mask = 1, m_buffer = [10 :: nat],
         m_head = 0, m_tail_cache = 0, m_tail = 1, m_head_cache = 0\<rparr> =
     Inr (False, \<lparr>m_capacity = 2, m_index_mask = 1, m_buffer = [10 :: nat],
         m_head = 0, m_tail_cache = 0, m_tail = 1, m_head_cache = 0\<rparr>)"
  using try_push_full_no_side_effect
    [of "\<lparr>m_capacity = 2, m_index_mask = 1, m_buffer = [10 :: nat],
         m_head = 0, m_tail_cache = 0, m_tail = 1, m_head_cache = 0\<rparr>" 11]
  by (simp add: full_def)

section \<open>Slot accesses\<close>

text \<open>
  C3 at a request of 1: the array has one slot and \<^verbatim>\<open>index_mask_\<close> is 1. A push, a
  \<^verbatim>\<open>try_pop()\<close> and a second push: the second push writes \<^verbatim>\<open>buffer_[1]\<close>.
\<close>

theorem slot_access_outside_array:
  "construct 8 id 1 =
     Inr \<lparr>m_capacity = 2, m_index_mask = 1, m_buffer = [0 :: nat],
          m_head = 0, m_tail_cache = 0, m_tail = 0, m_head_cache = 0\<rparr> \<and>
   run id [Push 10, TryPop]
     \<lparr>m_capacity = 2, m_index_mask = 1, m_buffer = [0 :: nat],
          m_head = 0, m_tail_cache = 0, m_tail = 0, m_head_cache = 0\<rparr> =
     Inr ([PushRet 10 True, TryPopRet (Some 10)],
          \<lparr>m_capacity = 2, m_index_mask = 1, m_buffer = [10],
           m_head = 1, m_tail_cache = 1, m_tail = 1, m_head_cache = 0\<rparr>) \<and>
   try_push 11 \<lparr>m_capacity = 2, m_index_mask = 1, m_buffer = [10 :: nat],
           m_head = 1, m_tail_cache = 1, m_tail = 1, m_head_cache = 0\<rparr> = Inl OutOfBounds \<and>
   run id [Push 10, TryPop, Push 11]
     \<lparr>m_capacity = 2, m_index_mask = 1, m_buffer = [0 :: nat],
          m_head = 0, m_tail_cache = 0, m_tail = 0, m_head_cache = 0\<rparr> = Inl OutOfBounds"
  by (simp add: construct_def new_array_def next_power_of_2_def try_push_def try_pop_def Let_def)

section \<open>Indices as natural numbers\<close>

lemma unat_and_mask: "unat (x AND mask k :: size_t) = unat x mod 2 ^ k"
proof -
  have "unat (x AND mask k) = unat (take_bit k x)"
    by (simp only: take_bit_eq_mask)
  also have "\<dots> = take_bit k (unat x)"
    by (rule unsigned_take_bit_eq)
  finally show ?thesis
    by (simp only: take_bit_eq_mod)
qed

lemma unat_succ_and_mask:
  assumes "k \<le> 64"
  shows "unat ((x + 1) AND mask k :: size_t) = (unat x + 1) mod 2 ^ k"
proof -
  have "(2::nat) ^ k dvd 2 ^ 64" using assms by (rule le_imp_power_dvd)
  then have "(unat x + 1) mod 2 ^ 64 mod 2 ^ k = (unat x + 1) mod 2 ^ k"
    by (rule mod_mod_cancel)
  moreover have "unat (x + 1) = (unat x + 1) mod 2 ^ 64"
    by (simp only: unat_word_ariths unsigned_1 len_of_numeral_defs) simp
  ultimately show ?thesis by (simp only: unat_and_mask)
qed

section \<open>What no call changes\<close>

lemma call_frame:
  assumes "call mv c s = Inr (r, s')"
  shows "m_index_mask s' = m_index_mask s" and "m_capacity s' = m_capacity s"
    and "length (m_buffer s') = length (m_buffer s)"
  using assms
  by (cases c; auto simp add: try_push_def try_push_move_def front_def pop_def try_pop_def Let_def
        split: if_splits sum.splits option.splits prod.splits)+

lemma run_frame:
  assumes "run mv cs s = Inr (rs, s')"
  shows "m_index_mask s' = m_index_mask s \<and> m_capacity s' = m_capacity s \<and>
         length (m_buffer s') = length (m_buffer s)"
  using assms
proof (induction cs arbitrary: s rs)
  case Nil
  then show ?case by simp
next
  case (Cons c cs)
  from Cons.prems obtain r s1 rs1 where
    c: "call mv c s = Inr (r, s1)" and r: "run mv cs s1 = Inr (rs1, s')"
    by (auto split: sum.splits prod.splits)
  from Cons.IH [OF r] call_frame [OF c] show ?case by simp
qed

text \<open>
  C7. After any sequence of calls on a constructed buffer (so also after every one in
  which \<^verbatim>\<open>pop()\<close> is only called on a non-empty buffer), \<^verbatim>\<open>size()\<close> is
  \<open>(tail - head) AND index_mask\<close> and lies between 0 and \<^verbatim>\<open>capacity()\<close>.
\<close>

theorem size_bound:
  assumes "construct lim fill c = Inr s0" and "run mv cs s0 = Inr (rs, s)"
  shows "size_rb s = (m_tail s - m_head s) AND m_index_mask s \<and>
         0 \<le> size_rb s \<and> size_rb s \<le> capacity s"
proof -
  obtain k where k: "m_index_mask s0 = mask k" "m_capacity s0 = 2 ^ k"
    using construct_shape [OF assms(1)] by blast
  have "m_index_mask s = mask k" "m_capacity s = 2 ^ k"
    using run_frame [OF assms(2)] k by simp_all
  then have "capacity s = m_index_mask s"
    by (simp add: capacity_def mask_eq_exp_minus_1)
  moreover have "(m_tail s - m_head s) AND m_index_mask s \<le> m_index_mask s"
    by (rule word_and_le1)
  ultimately show ?thesis by (simp add: size_rb_def)
qed

theorem size_bound_witness:
  "construct 8 id 5 =
     Inr \<lparr>m_capacity = 8, m_index_mask = 7, m_buffer = [0, 1, 2, 3, 4, 5, 6, 7 :: nat],
          m_head = 0, m_tail_cache = 0, m_tail = 0, m_head_cache = 0\<rparr> \<and>
   run id [Push 10, Push 11, TryPop]
     \<lparr>m_capacity = 8, m_index_mask = 7, m_buffer = [0, 1, 2, 3, 4, 5, 6, 7 :: nat],
          m_head = 0, m_tail_cache = 0, m_tail = 0, m_head_cache = 0\<rparr> =
     Inr ([PushRet 10 True, PushRet 11 True, TryPopRet (Some 10)],
          \<lparr>m_capacity = 8, m_index_mask = 7, m_buffer = [10, 11, 2, 3, 4, 5, 6, 7],
           m_head = 1, m_tail_cache = 2, m_tail = 2, m_head_cache = 0\<rparr>) \<and>
   size_rb \<lparr>m_capacity = 8, m_index_mask = 7, m_buffer = [10, 11, 2, 3, 4, 5, 6, 7 :: nat],
           m_head = 1, m_tail_cache = 2, m_tail = 2, m_head_cache = 0\<rparr> = 1 \<and>
   size_rb \<lparr>m_capacity = 8, m_index_mask = 7, m_buffer = [10, 11, 2, 3, 4, 5, 6, 7 :: nat],
           m_head = 1, m_tail_cache = 2, m_tail = 2, m_head_cache = 0\<rparr>
     \<le> capacity \<lparr>m_capacity = 8, m_index_mask = 7, m_buffer = [10, 11, 2, 3, 4, 5, 6, 7 :: nat],
           m_head = 1, m_tail_cache = 2, m_tail = 2, m_head_cache = 0\<rparr>"
proof -
  have c: "construct 8 id 5 =
     Inr \<lparr>m_capacity = 8, m_index_mask = 7, m_buffer = [0, 1, 2, 3, 4, 5, 6, 7 :: nat],
          m_head = 0, m_tail_cache = 0, m_tail = 0, m_head_cache = 0\<rparr>"
    by code_simp
  have r: "run id [Push 10, Push 11, TryPop]
     \<lparr>m_capacity = 8, m_index_mask = 7, m_buffer = [0, 1, 2, 3, 4, 5, 6, 7 :: nat],
          m_head = 0, m_tail_cache = 0, m_tail = 0, m_head_cache = 0\<rparr> =
     Inr ([PushRet 10 True, PushRet 11 True, TryPopRet (Some 10)],
          \<lparr>m_capacity = 8, m_index_mask = 7, m_buffer = [10, 11, 2, 3, 4, 5, 6, 7],
           m_head = 1, m_tail_cache = 2, m_tail = 2, m_head_cache = 0\<rparr>)"
    by (simp add: try_push_def try_pop_def Let_def)
  from size_bound [OF c r] c r show ?thesis by (simp add: size_rb_def)
qed

section \<open>The window is kept by every call\<close>

lemma mod_eq_window:
  fixes a b N :: nat
  assumes "a \<le> b" and "b < a + N" and "a mod N = b mod N"
  shows "a = b"
proof -
  have "b mod N = a mod N" using assms(3) by simp
  then have "N dvd b - a" using assms(1) by (simp only: mod_eq_dvd_iff_nat)
  moreover have "b - a < N" using assms(1,2) by simp
  ultimately have "b - a = 0" using dvd_imp_le [of N "b - a"] by (cases "b - a = 0") simp_all
  with assms(1) show ?thesis by simp
qed

lemma mod_eq_window_full:
  fixes a b N :: nat
  assumes "a < b" and "b \<le> a + N" and "a mod N = b mod N"
  shows "b = a + N"
proof (rule ccontr)
  assume "b \<noteq> a + N"
  with assms(2) have "b < a + N" by simp
  with assms(1,3) have "a = b" using mod_eq_window [of a b N] by simp
  with assms(1) show False by simp
qed

lemma mod_succ: "(a mod N + 1) mod N = (a + 1) mod (N::nat)"
  by (simp add: mod_Suc_eq)

lemma rb_inv_next:
  assumes "rb_inv k s pushed h hc tc"
  shows "unat ((m_tail s + 1) AND m_index_mask s) = (length pushed + 1) mod 2 ^ k"
    and "unat ((m_head s + 1) AND m_index_mask s) = (h + 1) mod 2 ^ k"
proof -
  from assms have k: "k \<le> 64" and m: "m_index_mask s = mask k"
    and t: "unat (m_tail s) = length pushed mod 2 ^ k" and h: "unat (m_head s) = h mod 2 ^ k"
    by (simp_all add: rb_inv_def)
  show "unat ((m_tail s + 1) AND m_index_mask s) = (length pushed + 1) mod 2 ^ k"
    unfolding m unat_succ_and_mask [OF k] t by (rule mod_succ)
  show "unat ((m_head s + 1) AND m_index_mask s) = (h + 1) mod 2 ^ k"
    unfolding m unat_succ_and_mask [OF k] h by (rule mod_succ)
qed

lemma rb_inv_head_eq_tail_cache:
  assumes "rb_inv k s pushed h hc tc"
  shows "m_head s = m_tail_cache s \<longleftrightarrow> h = tc"
proof -
  from assms have e: "unat (m_head s) = h mod 2 ^ k" "unat (m_tail_cache s) = tc mod 2 ^ k"
    and b: "h \<le> tc" "tc < h + 2 ^ k"
    by (simp_all add: rb_inv_def)
  show ?thesis
    using mod_eq_window [OF b] e by (auto simp add: word_unat_eq_iff)
qed

lemma rb_inv_head_eq_tail:
  assumes "rb_inv k s pushed h hc tc"
  shows "m_head s = m_tail s \<longleftrightarrow> h = length pushed"
proof -
  from assms have e: "unat (m_head s) = h mod 2 ^ k" "unat (m_tail s) = length pushed mod 2 ^ k"
    and b: "h \<le> length pushed" "length pushed < h + 2 ^ k"
    by (simp_all add: rb_inv_def)
  show ?thesis
    using mod_eq_window [OF b] e by (auto simp add: word_unat_eq_iff)
qed

lemma rb_inv_next_tail_eq_head_cache:
  assumes "rb_inv k s pushed h hc tc"
  shows "(m_tail s + 1) AND m_index_mask s = m_head_cache s \<longleftrightarrow> length pushed + 1 = hc + 2 ^ k"
proof -
  from assms have e: "unat (m_head_cache s) = hc mod 2 ^ k"
    and b: "hc < length pushed + 1" "length pushed + 1 \<le> hc + 2 ^ k"
    by (simp_all add: rb_inv_def)
  show ?thesis
    using mod_eq_window_full [OF b] e rb_inv_next(1) [OF assms]
    by (auto simp add: word_unat_eq_iff)
qed

lemma rb_inv_next_tail_eq_head:
  assumes "rb_inv k s pushed h hc tc"
  shows "(m_tail s + 1) AND m_index_mask s = m_head s \<longleftrightarrow> length pushed + 1 = h + 2 ^ k"
proof -
  from assms have e: "unat (m_head s) = h mod 2 ^ k"
    and b: "h < length pushed + 1" "length pushed + 1 \<le> h + 2 ^ k"
    by (simp_all add: rb_inv_def)
  show ?thesis
    using mod_eq_window_full [OF b] e rb_inv_next(1) [OF assms]
    by (auto simp add: word_unat_eq_iff)
qed

lemma rb_inv_refresh_head:
  assumes "rb_inv k s pushed h hc tc"
  shows "rb_inv k (s\<lparr>m_head_cache := m_head s\<rparr>) pushed h h tc"
  using assms by (simp add: rb_inv_def)

lemma rb_inv_refresh_tail:
  assumes "rb_inv k s pushed h hc tc"
  shows "rb_inv k (s\<lparr>m_tail_cache := m_tail s\<rparr>) pushed h hc (length pushed)"
  using assms by (simp add: rb_inv_def)

lemma mod_neq_in_window:
  fixes i j N :: nat
  assumes "i < j" and "j < i + N"
  shows "i mod N \<noteq> j mod N"
  using mod_eq_window [of i j N] assms by auto

lemma rb_inv_push_commit:
  assumes inv: "rb_inv k s pushed h hc tc"
    and room: "length pushed + 1 \<noteq> hc + 2 ^ k"
    and inb: "unat (m_tail s) < length (m_buffer s)"
  shows "rb_inv k (s\<lparr>m_buffer := (m_buffer s)[unat (m_tail s) := v],
                     m_tail := (m_tail s + 1) AND m_index_mask s\<rparr>) (pushed @ [v]) h hc tc"
proof -
  let ?N = "2 ^ k :: nat"
  from inv have f: "k \<le> 63" "m_index_mask s = mask k"
    "unat (m_head s) = h mod ?N" "unat (m_tail s) = length pushed mod ?N"
    "unat (m_head_cache s) = hc mod ?N" "unat (m_tail_cache s) = tc mod ?N"
    "hc \<le> h" "h \<le> tc" "tc \<le> length pushed" "length pushed < hc + ?N"
    and w: "\<And>i. h \<le> i \<Longrightarrow> i < length pushed \<Longrightarrow>
        i mod ?N < length (m_buffer s) \<and> m_buffer s ! (i mod ?N) = pushed ! i"
    by (simp_all add: rb_inv_def)
  have slot: "i mod ?N < length (m_buffer s) \<and>
      (m_buffer s)[length pushed mod ?N := v] ! (i mod ?N) = (pushed @ [v]) ! i"
    if i: "h \<le> i" "i < Suc (length pushed)" for i
  proof (cases "i = length pushed")
    case True
    then show ?thesis using inb f(4) by simp
  next
    case False
    with i have lt: "i < length pushed" by simp
    have "length pushed < i + ?N" using f(7,10) i(1) by simp
    with lt have "i mod ?N \<noteq> length pushed mod ?N" by (rule mod_neq_in_window)
    then show ?thesis using w [OF i(1) lt] lt by (simp add: nth_append)
  qed
  show ?thesis
    unfolding rb_inv_def
    using f room slot rb_inv_next(1) [OF inv] by simp
qed

lemma rb_inv_pop_commit:
  assumes inv: "rb_inv k s pushed h hc tc" and ne: "h < tc"
  shows "rb_inv k (s\<lparr>m_buffer := (m_buffer s)[unat (m_head s) := x],
                     m_head := (m_head s + 1) AND m_index_mask s\<rparr>) pushed (Suc h) hc tc"
    and "rb_inv k (s\<lparr>m_head := (m_head s + 1) AND m_index_mask s\<rparr>) pushed (Suc h) hc tc"
proof -
  let ?N = "2 ^ k :: nat"
  from inv have f: "k \<le> 63" "m_index_mask s = mask k"
    "unat (m_head s) = h mod ?N" "unat (m_tail s) = length pushed mod ?N"
    "unat (m_head_cache s) = hc mod ?N" "unat (m_tail_cache s) = tc mod ?N"
    "hc \<le> h" "h \<le> tc" "tc \<le> length pushed" "length pushed < hc + ?N"
    and w: "\<And>i. h \<le> i \<Longrightarrow> i < length pushed \<Longrightarrow>
        i mod ?N < length (m_buffer s) \<and> m_buffer s ! (i mod ?N) = pushed ! i"
    by (simp_all add: rb_inv_def)
  have slot: "i mod ?N < length (m_buffer s) \<and>
      (m_buffer s)[h mod ?N := x] ! (i mod ?N) = pushed ! i"
    if i: "Suc h \<le> i" "i < length pushed" for i
  proof -
    have "h < i" "i < h + ?N" using i f(7,10) by simp_all
    then have "h mod ?N \<noteq> i mod ?N" by (rule mod_neq_in_window)
    then show ?thesis using w [of i] i by simp
  qed
  show "rb_inv k (s\<lparr>m_buffer := (m_buffer s)[unat (m_head s) := x],
                     m_head := (m_head s + 1) AND m_index_mask s\<rparr>) pushed (Suc h) hc tc"
    unfolding rb_inv_def
    using f ne slot rb_inv_next(2) [OF inv] by simp
  show "rb_inv k (s\<lparr>m_head := (m_head s + 1) AND m_index_mask s\<rparr>) pushed (Suc h) hc tc"
    unfolding rb_inv_def
    using f ne w rb_inv_next(2) [OF inv] by simp
qed

lemma rb_inv_front_slot:
  assumes inv: "rb_inv k s pushed h hc tc" and ne: "h < length pushed"
  shows "unat (m_head s) < length (m_buffer s)" and "m_buffer s ! unat (m_head s) = pushed ! h"
  using assms by (simp_all add: rb_inv_def)

lemma try_push_step:
  assumes inv: "rb_inv k s pushed h hc tc" and push: "try_push v s = Inr (b, s')"
  shows "\<exists>hc'. rb_inv k s' (if b then pushed @ [v] else pushed) h hc' tc"
proof (cases "(m_tail s + 1) AND m_index_mask s = m_head_cache s")
  case refresh: True
  let ?s1 = "s\<lparr>m_head_cache := m_head s\<rparr>"
  have inv1: "rb_inv k ?s1 pushed h h tc" using inv by (rule rb_inv_refresh_head)
  show ?thesis
  proof (cases "(m_tail s + 1) AND m_index_mask s = m_head s")
    case True
    with refresh push have "b = False" "s' = ?s1"
      by (simp_all add: try_push_def Let_def)
    with inv1 show ?thesis by auto
  next
    case False
    then have room: "length pushed + 1 \<noteq> h + 2 ^ k"
      using rb_inv_next_tail_eq_head [OF inv] by simp
    from False refresh push have inb: "unat (m_tail ?s1) < length (m_buffer ?s1)"
      and res: "b = True"
        "s' = ?s1\<lparr>m_buffer := (m_buffer ?s1)[unat (m_tail ?s1) := v],
                   m_tail := (m_tail ?s1 + 1) AND m_index_mask ?s1\<rparr>"
      by (auto simp add: try_push_def Let_def split: if_splits)
    from rb_inv_push_commit [OF inv1 room inb, of v] res show ?thesis by auto
  qed
next
  case False
  then have room: "length pushed + 1 \<noteq> hc + 2 ^ k"
    using rb_inv_next_tail_eq_head_cache [OF inv] by simp
  from False push have inb: "unat (m_tail s) < length (m_buffer s)"
    and res: "b = True"
      "s' = s\<lparr>m_buffer := (m_buffer s)[unat (m_tail s) := v],
               m_tail := (m_tail s + 1) AND m_index_mask s\<rparr>"
    by (auto simp add: try_push_def Let_def split: if_splits)
  from rb_inv_push_commit [OF inv room inb, of v] res show ?thesis by auto
qed

lemma front_step:
  assumes inv: "rb_inv k s pushed h hc tc" and fr: "front s = Inr (r, s')"
  shows "\<exists>tc'. rb_inv k s' pushed h hc tc' \<and>
           (case r of
              None \<Rightarrow> h = length pushed
            | Some i \<Rightarrow> h < tc' \<and> i = unat (m_head s) \<and> i < length (m_buffer s') \<and>
                       m_buffer s' ! i = pushed ! h)"
proof (cases "m_head s = m_tail_cache s")
  case refresh: True
  let ?s1 = "s\<lparr>m_tail_cache := m_tail s\<rparr>"
  have inv1: "rb_inv k ?s1 pushed h hc (length pushed)" using inv by (rule rb_inv_refresh_tail)
  show ?thesis
  proof (cases "m_head s = m_tail s")
    case True
    with refresh fr have "r = None" "s' = ?s1"
      by (simp_all add: front_def Let_def)
    with inv1 rb_inv_head_eq_tail [OF inv] True show ?thesis by auto
  next
    case False
    then have ne: "h < length pushed"
      using rb_inv_head_eq_tail [OF inv] inv by (simp add: rb_inv_def)
    from False refresh fr have "r = Some (unat (m_head s))" "s' = ?s1"
      by (auto simp add: front_def Let_def split: if_splits)
    with inv1 ne rb_inv_front_slot [OF inv ne] show ?thesis by auto
  qed
next
  case False
  then have ne: "h < tc" "h < length pushed"
    using rb_inv_head_eq_tail_cache [OF inv] inv by (simp_all add: rb_inv_def)
  from False fr have "r = Some (unat (m_head s))" "s' = s"
    by (auto simp add: front_def Let_def split: if_splits)
  with inv ne rb_inv_front_slot [OF inv ne(2)] show ?thesis by auto
qed

lemma try_pop_step:
  assumes inv: "rb_inv k s pushed h hc tc" and tp: "try_pop mv s = Inr (r, s')"
  shows "\<exists>tc'. case r of
              None \<Rightarrow> rb_inv k s' pushed h hc tc' \<and> h = length pushed
            | Some v \<Rightarrow> rb_inv k s' pushed (Suc h) hc tc' \<and> h < length pushed \<and> v = pushed ! h"
proof (cases "m_head s = m_tail_cache s")
  case refresh: True
  let ?s1 = "s\<lparr>m_tail_cache := m_tail s\<rparr>"
  have inv1: "rb_inv k ?s1 pushed h hc (length pushed)" using inv by (rule rb_inv_refresh_tail)
  show ?thesis
  proof (cases "m_head s = m_tail s")
    case True
    with refresh tp have "r = None" "s' = ?s1"
      by (simp_all add: try_pop_def Let_def)
    with inv1 rb_inv_head_eq_tail [OF inv] True show ?thesis by auto
  next
    case False
    then have ne: "h < length pushed"
      using rb_inv_head_eq_tail [OF inv] inv by (simp add: rb_inv_def)
    from False refresh tp have res: "r = Some (m_buffer s ! unat (m_head s))"
      "s' = ?s1\<lparr>m_buffer := (m_buffer ?s1)[unat (m_head ?s1) := mv (m_buffer s ! unat (m_head s))],
                 m_head := (m_head ?s1 + 1) AND m_index_mask ?s1\<rparr>"
      by (auto simp add: try_pop_def Let_def split: if_splits)
    from rb_inv_pop_commit(1) [OF inv1 ne] res ne rb_inv_front_slot [OF inv ne]
    show ?thesis by auto
  qed
next
  case False
  then have ne: "h < tc" "h < length pushed"
    using rb_inv_head_eq_tail_cache [OF inv] inv by (simp_all add: rb_inv_def)
  from False tp have res: "r = Some (m_buffer s ! unat (m_head s))"
    "s' = s\<lparr>m_buffer := (m_buffer s)[unat (m_head s) := mv (m_buffer s ! unat (m_head s))],
             m_head := (m_head s + 1) AND m_index_mask s\<rparr>"
    by (auto simp add: try_pop_def Let_def split: if_splits)
  from rb_inv_pop_commit(1) [OF inv ne(1)] res ne rb_inv_front_slot [OF inv ne(2)]
  show ?thesis by auto
qed

lemma rb_inv_bounds:
  assumes "rb_inv k s pushed h hc tc"
  shows "h \<le> tc" and "tc \<le> length pushed" and "h \<le> length pushed"
  using assms by (simp_all add: rb_inv_def)

lemma run_fifo:
  assumes "run mv cs s = Inr (rs, s')"
    and "rb_inv k s pushed h hc tc"
    and "pop_follows_front (p \<noteq> None) rs"
    and "\<And>v. p = Some v \<Longrightarrow> h < tc \<and> v = pushed ! h"
  shows "\<exists>hc' tc'. rb_inv k s' (pushed @ produced rs) (h + length (consumed p rs)) hc' tc' \<and>
           take (h + length (consumed p rs)) (pushed @ produced rs) = take h pushed @ consumed p rs"
  using assms
proof (induction cs arbitrary: s rs pushed h hc tc p)
  case Nil
  then have "rs = []" "s' = s" by simp_all
  with Nil.prems(2) rb_inv_bounds(3) [OF Nil.prems(2)] show ?case by auto
next
  case (Cons c cs)
  from Cons.prems(1) obtain r s1 rs1 where
    c: "call mv c s = Inr (r, s1)" and run1: "run mv cs s1 = Inr (rs1, s')" and rs: "rs = r # rs1"
    by (auto split: sum.splits prod.splits)
  note inv = Cons.prems(2)
  note hl = rb_inv_bounds [OF inv]
  have pending: "h < tc \<and> v = pushed ! h" if "p = Some v" for v
    using Cons.prems(4) [OF that] .
  have push_case: ?case if tp: "try_push v s = Inr (b, s1)" and r: "r = PushRet v b" for v b
  proof -
    let ?pushed1 = "if b then pushed @ [v] else pushed"
    obtain hc1 where inv1: "rb_inv k s1 ?pushed1 h hc1 tc"
      using try_push_step [OF inv tp] by blast
    have pf: "pop_follows_front (p \<noteq> None) rs1"
      using Cons.prems(3) rs r by simp
    have pend1: "h < tc \<and> w = ?pushed1 ! h" if "p = Some w" for w
      using pending [OF that] hl by (simp add: nth_append)
    from Cons.IH [OF run1 inv1 pf pend1] obtain hc' tc' where
      res: "rb_inv k s' (?pushed1 @ produced rs1) (h + length (consumed p rs1)) hc' tc'"
        "take (h + length (consumed p rs1)) (?pushed1 @ produced rs1) =
           take h ?pushed1 @ consumed p rs1"
      by blast
    have "?pushed1 @ produced rs1 = pushed @ produced rs" using rs r by simp
    moreover have "consumed p rs = consumed p rs1" using rs r by simp
    moreover have "take h ?pushed1 = take h pushed" using hl by simp
    ultimately show ?thesis using res by auto
  qed
  have removed: ?case
    if inv1: "rb_inv k s1 pushed (Suc h) hc tc1" and hlt: "h < length pushed"
      and cons: "consumed p rs = pushed ! h # consumed None rs1"
      and prod: "produced rs = produced rs1"
      and pf: "pop_follows_front False rs1" for tc1
  proof -
    have pf': "pop_follows_front ((None :: 'a option) \<noteq> None) rs1" using pf by simp
    have pend1: "Suc h < tc1 \<and> w = pushed ! Suc h" if "(None :: 'a option) = Some w" for w
      using that by simp
    from Cons.IH [OF run1 inv1 pf' pend1] obtain hc' tc' where
      res: "rb_inv k s' (pushed @ produced rs1) (Suc h + length (consumed None rs1)) hc' tc'"
        "take (Suc h + length (consumed None rs1)) (pushed @ produced rs1) =
           take (Suc h) pushed @ consumed None rs1"
      by blast
    have "take (Suc h) pushed = take h pushed @ [pushed ! h]"
      using hlt by (rule take_Suc_conv_app_nth)
    with res cons prod show ?thesis by auto
  qed
  have kept: ?case
    if inv1: "rb_inv k s1 pushed h hc tc1" and cons: "consumed p rs = consumed p1 rs1"
      and prod: "produced rs = produced rs1"
      and pf: "pop_follows_front (p1 \<noteq> None) rs1"
      and pend1: "\<And>w. p1 = Some w \<Longrightarrow> h < tc1 \<and> w = pushed ! h" for tc1 p1
  proof -
    from Cons.IH [OF run1 inv1 pf pend1] obtain hc' tc' where
      "rb_inv k s' (pushed @ produced rs1) (h + length (consumed p1 rs1)) hc' tc'"
      "take (h + length (consumed p1 rs1)) (pushed @ produced rs1) =
         take h pushed @ consumed p1 rs1"
      by blast
    with cons prod show ?thesis by auto
  qed
  show ?case
  proof (cases c)
    case (Push v)
    with c obtain b where "try_push v s = Inr (b, s1)" "r = PushRet v b"
      by (auto split: sum.splits prod.splits)
    then show ?thesis by (rule push_case)
  next
    case (PushMove v)
    with c obtain b where "try_push v s = Inr (b, s1)" "r = PushRet v b"
      by (auto simp add: try_push_move_eq split: sum.splits prod.splits)
    then show ?thesis by (rule push_case)
  next
    case Front
    with c obtain fr where fr: "front s = Inr (fr, s1)"
      and r: "r = FrontRet (case fr of None \<Rightarrow> None | Some i \<Rightarrow> Some (m_buffer s1 ! i))"
      by (auto split: sum.splits prod.splits option.splits)
    from front_step [OF inv fr] obtain tc1 where inv1: "rb_inv k s1 pushed h hc tc1"
      and out: "case fr of None \<Rightarrow> h = length pushed
                | Some i \<Rightarrow> h < tc1 \<and> i = unat (m_head s) \<and> i < length (m_buffer s1) \<and>
                           m_buffer s1 ! i = pushed ! h"
      by blast
    show ?thesis
    proof (cases fr)
      case None
      with out have "h = length pushed" by auto
      with pending hl have pn: "p = None" by (cases p) auto
      show ?thesis
      proof (rule kept [OF inv1, of p])
        show "consumed p rs = consumed p rs1" using rs r None by simp
        show "produced rs = produced rs1" using rs r by simp
        show "pop_follows_front (p \<noteq> None) rs1" using Cons.prems(3) rs r None by simp
        show "h < tc1 \<and> w = pushed ! h" if "p = Some w" for w using that pn by simp
      qed
    next
      case (Some i)
      with out have o: "h < tc1" "m_buffer s1 ! i = pushed ! h" by auto
      have r': "r = FrontRet (Some (pushed ! h))" unfolding r Some using o(2) by simp
      show ?thesis
      proof (rule kept [OF inv1, of "Some (pushed ! h)"])
        show "consumed p rs = consumed (Some (pushed ! h)) rs1" unfolding rs r' by simp
        show "produced rs = produced rs1" unfolding rs r' by simp
        show "pop_follows_front (Some (pushed ! h) \<noteq> None) rs1"
          using Cons.prems(3) unfolding rs r' by simp
        show "h < tc1 \<and> w = pushed ! h" if "Some (pushed ! h) = Some w" for w
          using that o by simp
      qed
    qed
  next
    case Pop
    with c have r: "r = PopRet" and s1: "s1 = pop s" by simp_all
    from Cons.prems(3) rs r obtain v where p: "p = Some v" and pf: "pop_follows_front False rs1"
      by auto
    from pending [OF p] have ne: "h < tc" and v: "v = pushed ! h" by simp_all
    have inv1: "rb_inv k s1 pushed (Suc h) hc tc"
      using rb_inv_pop_commit(2) [OF inv ne] s1 by (simp add: pop_def)
    show ?thesis
    proof (rule removed [OF inv1 _ _ _ pf])
      show "h < length pushed" using ne hl by simp
      show "consumed p rs = pushed ! h # consumed None rs1" using rs r p v by simp
      show "produced rs = produced rs1" using rs r by simp
    qed
  next
    case TryPop
    with c obtain tr where tp: "try_pop mv s = Inr (tr, s1)" and r: "r = TryPopRet tr"
      by (auto split: sum.splits prod.splits)
    from try_pop_step [OF inv tp] obtain tc1 where
      out: "case tr of
              None \<Rightarrow> rb_inv k s1 pushed h hc tc1 \<and> h = length pushed
            | Some v \<Rightarrow> rb_inv k s1 pushed (Suc h) hc tc1 \<and> h < length pushed \<and> v = pushed ! h"
      by blast
    show ?thesis
    proof (cases tr)
      case None
      with out have inv1: "rb_inv k s1 pushed h hc tc1" and "h = length pushed" by auto
      with pending hl have pn: "p = None" by (cases p) auto
      show ?thesis
      proof (rule kept [OF inv1, of p])
        show "consumed p rs = consumed p rs1" using rs r None by simp
        show "produced rs = produced rs1" using rs r by simp
        show "pop_follows_front (p \<noteq> None) rs1" using Cons.prems(3) rs r None by simp
        show "h < tc1 \<and> w = pushed ! h" if "p = Some w" for w using that pn by simp
      qed
    next
      case (Some v)
      with out have inv1: "rb_inv k s1 pushed (Suc h) hc tc1"
        and o: "h < length pushed" "v = pushed ! h" by auto
      show ?thesis
      proof (rule removed [OF inv1 o(1)])
        show "consumed p rs = pushed ! h # consumed None rs1" using rs r Some o by simp
        show "produced rs = produced rs1" using rs r by simp
        show "pop_follows_front False rs1" using Cons.prems(3) rs r Some by simp
      qed
    qed
  qed
qed

lemma construct_rb_inv:
  assumes "construct lim fill c = Inr s0"
  shows "\<exists>k. rb_inv k s0 [] 0 0 0"
proof -
  obtain k where "k \<le> 63" "m_index_mask s0 = mask k"
    using construct_shape [OF assms] by blast
  then have "rb_inv k s0 [] 0 0 0"
    using construct_fields(1-4) [OF assms] by (simp add: rb_inv_def)
  then show ?thesis ..
qed

section \<open>No access outside the array when the request is between 2 and \<open>2 ^ 63\<close>\<close>

lemma call_total:
  assumes "m_index_mask s = mask k" and "length (m_buffer s) = 2 ^ k"
    and "unat (m_head s) < 2 ^ k" and "unat (m_tail s) < 2 ^ k"
  shows "\<exists>r s'. call mv c s = Inr (r, s') \<and> unat (m_head s') < 2 ^ k \<and> unat (m_tail s') < 2 ^ k"
proof -
  have m: "unat (x AND m_index_mask s) < 2 ^ k" for x
    by (simp add: assms(1) unat_and_mask)
  show ?thesis
    using assms(2-4) m
    by (cases c)
      (auto simp add: try_push_def try_push_move_def front_def pop_def try_pop_def Let_def)
qed

lemma run_total:
  assumes "m_index_mask s = mask k" and "length (m_buffer s) = 2 ^ k"
    and "unat (m_head s) < 2 ^ k" and "unat (m_tail s) < 2 ^ k"
  shows "\<exists>rs s'. run mv cs s = Inr (rs, s')"
  using assms
proof (induction cs arbitrary: s)
  case Nil
  show ?case by simp
next
  case (Cons c cs)
  from call_total [OF Cons.prems, of mv c] obtain r s1 where
    c: "call mv c s = Inr (r, s1)" and b: "unat (m_head s1) < 2 ^ k" "unat (m_tail s1) < 2 ^ k"
    by blast
  from call_frame [OF c] Cons.prems have "m_index_mask s1 = mask k" "length (m_buffer s1) = 2 ^ k"
    by simp_all
  from Cons.IH [OF this b] c show ?case by auto
qed

lemma construct_run_total:
  assumes "construct lim fill c = Inr s0" and "1 < c" and "c \<le> 2 ^ 63"
  shows "\<exists>rs s. run mv cs s0 = Inr (rs, s)"
proof -
  obtain k where "m_index_mask s0 = mask k" "length (m_buffer s0) = 2 ^ k"
    using construct_shape [OF assms(1)] assms(2,3) by blast
  then show ?thesis
    using construct_fields(1,2) [OF assms(1)] by (intro run_total [of s0 k]) simp_all
qed

section \<open>First in, first out\<close>

text \<open>
  C4. On a constructed buffer, take any sequence of calls made one after the other in which
  \<^verbatim>\<open>pop()\<close> is only called after a successful \<^verbatim>\<open>front()\<close> with no element removed in
  between (the precondition the specification gives \<^verbatim>\<open>pop()\<close>). Then the values the consumer
  takes out (by \<^verbatim>\<open>try_pop()\<close>, or read at \<^verbatim>\<open>front()\<close> and removed by \<^verbatim>\<open>pop()\<close>) are a prefix
  of the values of the successful pushes, in the same order: the n-th value taken out is
  the n-th value pushed. This holds for every run that completes; and for a request
  between 2 and \<open>2 ^ 63\<close> every sequence of calls completes.
\<close>

theorem fifo_order:
  assumes "construct lim fill c = Inr s0"
  shows "(1 < c \<and> c \<le> 2 ^ 63 \<longrightarrow> (\<exists>rs s. run mv cs s0 = Inr (rs, s))) \<and>
         (\<forall>rs s. run mv cs s0 = Inr (rs, s) \<and> pop_follows_front False rs \<longrightarrow>
            length (consumed None rs) \<le> length (produced rs) \<and>
            consumed None rs = take (length (consumed None rs)) (produced rs) \<and>
            (\<forall>n < length (consumed None rs). consumed None rs ! n = produced rs ! n))"
proof (intro conjI impI allI)
  assume "1 < c \<and> c \<le> 2 ^ 63"
  then show "\<exists>rs s. run mv cs s0 = Inr (rs, s)"
    using construct_run_total [OF assms] by blast
next
  fix rs s
  assume a: "run mv cs s0 = Inr (rs, s) \<and> pop_follows_front False rs"
  obtain k where inv0: "rb_inv k s0 [] 0 0 0"
    using construct_rb_inv [OF assms] by blast
  have pf: "pop_follows_front ((None :: 'a option) \<noteq> None) rs" using a by simp
  have "\<exists>hc' tc'. rb_inv k s ([] @ produced rs) (0 + length (consumed None rs)) hc' tc' \<and>
      take (0 + length (consumed None rs)) ([] @ produced rs) = take 0 [] @ consumed None rs"
    using a by (intro run_fifo [of mv cs, OF _ inv0 pf]) simp_all
  then obtain hc' tc' where inv: "rb_inv k s (produced rs) (length (consumed None rs)) hc' tc'"
    and pre: "take (length (consumed None rs)) (produced rs) = consumed None rs"
    by auto
  show le: "length (consumed None rs) \<le> length (produced rs)"
    using rb_inv_bounds(3) [OF inv] .
  show eq: "consumed None rs = take (length (consumed None rs)) (produced rs)"
    using pre by simp
  show "consumed None rs ! n = produced rs ! n" if "n < length (consumed None rs)" for n
  proof -
    have "consumed None rs ! n = take (length (consumed None rs)) (produced rs) ! n"
      using eq by simp
    also have "\<dots> = produced rs ! n" using that by simp
    finally show ?thesis .
  qed
qed

theorem fifo_order_witness:
  "construct 8 id 5 =
     Inr \<lparr>m_capacity = 8, m_index_mask = 7, m_buffer = [0, 1, 2, 3, 4, 5, 6, 7 :: nat],
          m_head = 0, m_tail_cache = 0, m_tail = 0, m_head_cache = 0\<rparr> \<and>
   1 < (5 :: size_t) \<and> (5 :: size_t) \<le> 2 ^ 63 \<and>
   run id [Push 10, Push 11, Push 12, TryPop, Push 13, Front, Pop, TryPop]
     \<lparr>m_capacity = 8, m_index_mask = 7, m_buffer = [0, 1, 2, 3, 4, 5, 6, 7 :: nat],
          m_head = 0, m_tail_cache = 0, m_tail = 0, m_head_cache = 0\<rparr> =
     Inr ([PushRet 10 True, PushRet 11 True, PushRet 12 True, TryPopRet (Some 10),
           PushRet 13 True, FrontRet (Some 11), PopRet, TryPopRet (Some 12)],
          \<lparr>m_capacity = 8, m_index_mask = 7, m_buffer = [10, 11, 12, 13, 4, 5, 6, 7],
           m_head = 3, m_tail_cache = 3, m_tail = 4, m_head_cache = 0\<rparr>) \<and>
   pop_follows_front False
     [PushRet 10 True, PushRet 11 True, PushRet 12 True, TryPopRet (Some 10),
      PushRet 13 True, FrontRet (Some 11), PopRet, TryPopRet (Some (12 :: nat))] \<and>
   produced
     [PushRet 10 True, PushRet 11 True, PushRet 12 True, TryPopRet (Some 10),
      PushRet 13 True, FrontRet (Some 11), PopRet, TryPopRet (Some (12 :: nat))] =
     [10, 11, 12, 13] \<and>
   consumed None
     [PushRet 10 True, PushRet 11 True, PushRet 12 True, TryPopRet (Some 10),
      PushRet 13 True, FrontRet (Some 11), PopRet, TryPopRet (Some (12 :: nat))] =
     [10, 11, 12]"
proof -
  have c: "construct 8 id 5 =
     Inr \<lparr>m_capacity = 8, m_index_mask = 7, m_buffer = [0, 1, 2, 3, 4, 5, 6, 7 :: nat],
          m_head = 0, m_tail_cache = 0, m_tail = 0, m_head_cache = 0\<rparr>"
    by code_simp
  have r: "run id [Push 10, Push 11, Push 12, TryPop, Push 13, Front, Pop, TryPop]
     \<lparr>m_capacity = 8, m_index_mask = 7, m_buffer = [0, 1, 2, 3, 4, 5, 6, 7 :: nat],
          m_head = 0, m_tail_cache = 0, m_tail = 0, m_head_cache = 0\<rparr> =
     Inr ([PushRet 10 True, PushRet 11 True, PushRet 12 True, TryPopRet (Some 10),
           PushRet 13 True, FrontRet (Some 11), PopRet, TryPopRet (Some 12)],
          \<lparr>m_capacity = 8, m_index_mask = 7, m_buffer = [10, 11, 12, 13, 4, 5, 6, 7],
           m_head = 3, m_tail_cache = 3, m_tail = 4, m_head_cache = 0\<rparr>)"
    by (simp add: try_push_def try_pop_def front_def pop_def Let_def)
  from fifo_order [OF c, of id "[Push 10, Push 11, Push 12, TryPop, Push 13, Front, Pop, TryPop]"]
    c r show ?thesis by simp
qed

text \<open>
  Without that precondition the order is lost: a \<^verbatim>\<open>pop()\<close> on a non-empty buffer that no
  \<^verbatim>\<open>front()\<close> precedes steps over the stale \<^verbatim>\<open>tail_cache_\<close>, and the next \<^verbatim>\<open>try_pop()\<close>
  returns a slot that was never pushed (here the initial content 1 of slot 1).
\<close>

lemma pop_without_front_loses_order:
  "run id [Push 10, Pop, TryPop]
     \<lparr>m_capacity = 8, m_index_mask = 7, m_buffer = [0, 1, 2, 3, 4, 5, 6, 7 :: nat],
          m_head = 0, m_tail_cache = 0, m_tail = 0, m_head_cache = 0\<rparr> =
     Inr ([PushRet 10 True, PopRet, TryPopRet (Some 1)],
          \<lparr>m_capacity = 8, m_index_mask = 7, m_buffer = [10, 1, 2, 3, 4, 5, 6, 7],
           m_head = 2, m_tail_cache = 0, m_tail = 1, m_head_cache = 0\<rparr>)"
  by (simp add: try_push_def try_pop_def pop_def Let_def)

section \<open>Peeking\<close>

lemma front_frame:
  assumes "front s = Inr (r, s')"
  shows "m_head s' = m_head s" and "m_tail s' = m_tail s" and "m_buffer s' = m_buffer s"
    and "m_capacity s' = m_capacity s" and "m_index_mask s' = m_index_mask s"
    and "m_head_cache s' = m_head_cache s"
  using assms by (auto simp add: front_def Let_def split: if_splits)

text \<open>
  C9. In every state a returning \<^verbatim>\<open>front()\<close> leaves \<^verbatim>\<open>head_\<close>, \<^verbatim>\<open>tail_\<close> and every slot as
  they were. On a non-empty buffer (reached from construction by calls that keep the
  precondition of \<^verbatim>\<open>pop()\<close>) it returns the pointer to \<^verbatim>\<open>buffer_[head_]\<close>, which is inside the
  array and holds the oldest value not yet taken out; the element stays: a second
  \<^verbatim>\<open>front()\<close> returns the same pointer.
\<close>

theorem front_is_a_peek:
  "(\<forall>r s'. front s = Inr (r, s') \<longrightarrow>
      m_head s' = m_head s \<and> m_tail s' = m_tail s \<and> m_buffer s' = m_buffer s) \<and>
   (construct lim fill c = Inr s0 \<and> run mv cs s0 = Inr (rs, s) \<and> pop_follows_front False rs \<and>
    \<not> empty_rb s \<longrightarrow>
      (\<exists>s'. front s = Inr (Some (unat (m_head s)), s') \<and>
            unat (m_head s) < length (m_buffer s) \<and>
            m_buffer s ! unat (m_head s) = produced rs ! length (consumed None rs) \<and>
            front s' = Inr (Some (unat (m_head s)), s')))"
proof (intro conjI impI allI)
  fix r s'
  assume "front s = Inr (r, s')"
  then show "m_head s' = m_head s" "m_tail s' = m_tail s" "m_buffer s' = m_buffer s"
    by (rule front_frame)+
next
  assume a: "construct lim fill c = Inr s0 \<and> run mv cs s0 = Inr (rs, s) \<and>
    pop_follows_front False rs \<and> \<not> empty_rb s"
  obtain k where inv0: "rb_inv k s0 [] 0 0 0"
    using construct_rb_inv a by blast
  have pf: "pop_follows_front ((None :: 'a option) \<noteq> None) rs" using a by simp
  have "\<exists>hc' tc'. rb_inv k s ([] @ produced rs) (0 + length (consumed None rs)) hc' tc' \<and>
      take (0 + length (consumed None rs)) ([] @ produced rs) = take 0 [] @ consumed None rs"
    using a by (intro run_fifo [of mv cs, OF _ inv0 pf]) simp_all
  then obtain hc' tc' where inv: "rb_inv k s (produced rs) (length (consumed None rs)) hc' tc'"
    by auto
  have ne: "m_head s \<noteq> m_tail s" using a by (simp add: empty_rb_def)
  then have lt: "length (consumed None rs) < length (produced rs)"
    using rb_inv_head_eq_tail [OF inv] rb_inv_bounds(3) [OF inv] by simp
  note slot = rb_inv_front_slot [OF inv lt]
  let ?s' = "if m_head s = m_tail_cache s then s\<lparr>m_tail_cache := m_tail s\<rparr> else s"
  have f1: "front s = Inr (Some (unat (m_head s)), ?s')"
    using ne slot(1) by (auto simp add: front_def Let_def)
  have f2: "front ?s' = Inr (Some (unat (m_head s)), ?s')"
    using ne slot(1) by (auto simp add: front_def Let_def)
  show "\<exists>s'. front s = Inr (Some (unat (m_head s)), s') \<and>
            unat (m_head s) < length (m_buffer s) \<and>
            m_buffer s ! unat (m_head s) = produced rs ! length (consumed None rs) \<and>
            front s' = Inr (Some (unat (m_head s)), s')"
    using f1 f2 slot by blast
qed

theorem front_is_a_peek_witness:
  "construct 8 id 5 =
     Inr \<lparr>m_capacity = 8, m_index_mask = 7, m_buffer = [0, 1, 2, 3, 4, 5, 6, 7 :: nat],
          m_head = 0, m_tail_cache = 0, m_tail = 0, m_head_cache = 0\<rparr> \<and>
   run id [Push 10, Push 11, TryPop]
     \<lparr>m_capacity = 8, m_index_mask = 7, m_buffer = [0, 1, 2, 3, 4, 5, 6, 7 :: nat],
          m_head = 0, m_tail_cache = 0, m_tail = 0, m_head_cache = 0\<rparr> =
     Inr ([PushRet 10 True, PushRet 11 True, TryPopRet (Some 10)],
          \<lparr>m_capacity = 8, m_index_mask = 7, m_buffer = [10, 11, 2, 3, 4, 5, 6, 7],
           m_head = 1, m_tail_cache = 2, m_tail = 2, m_head_cache = 0\<rparr>) \<and>
   pop_follows_front False [PushRet 10 True, PushRet 11 True, TryPopRet (Some (10 :: nat))] \<and>
   \<not> empty_rb \<lparr>m_capacity = 8, m_index_mask = 7, m_buffer = [10, 11, 2, 3, 4, 5, 6, 7 :: nat],
           m_head = 1, m_tail_cache = 2, m_tail = 2, m_head_cache = 0\<rparr> \<and>
   front \<lparr>m_capacity = 8, m_index_mask = 7, m_buffer = [10, 11, 2, 3, 4, 5, 6, 7 :: nat],
           m_head = 1, m_tail_cache = 2, m_tail = 2, m_head_cache = 0\<rparr> =
     Inr (Some 1, \<lparr>m_capacity = 8, m_index_mask = 7, m_buffer = [10, 11, 2, 3, 4, 5, 6, 7],
           m_head = 1, m_tail_cache = 2, m_tail = 2, m_head_cache = 0\<rparr>)"
proof -
  have c: "construct 8 id 5 =
     Inr \<lparr>m_capacity = 8, m_index_mask = 7, m_buffer = [0, 1, 2, 3, 4, 5, 6, 7 :: nat],
          m_head = 0, m_tail_cache = 0, m_tail = 0, m_head_cache = 0\<rparr>"
    by code_simp
  have r: "run id [Push 10, Push 11, TryPop]
     \<lparr>m_capacity = 8, m_index_mask = 7, m_buffer = [0, 1, 2, 3, 4, 5, 6, 7 :: nat],
          m_head = 0, m_tail_cache = 0, m_tail = 0, m_head_cache = 0\<rparr> =
     Inr ([PushRet 10 True, PushRet 11 True, TryPopRet (Some 10)],
          \<lparr>m_capacity = 8, m_index_mask = 7, m_buffer = [10, 11, 2, 3, 4, 5, 6, 7],
           m_head = 1, m_tail_cache = 2, m_tail = 2, m_head_cache = 0\<rparr>)"
    by (simp add: try_push_def try_pop_def Let_def)
  from front_is_a_peek
    [where s = "\<lparr>m_capacity = 8, m_index_mask = 7, m_buffer = [10, 11, 2, 3, 4, 5, 6, 7 :: nat],
           m_head = 1, m_tail_cache = 2, m_tail = 2, m_head_cache = 0\<rparr>"
       and lim = 8 and fill = id and c = 5 and mv = id and cs = "[Push 10, Push 11, TryPop]"
       and ?s0.0 = "\<lparr>m_capacity = 8, m_index_mask = 7, m_buffer = [0, 1, 2, 3, 4, 5, 6, 7 :: nat],
          m_head = 0, m_tail_cache = 0, m_tail = 0, m_head_cache = 0\<rparr>"
       and rs = "[PushRet 10 True, PushRet 11 True, TryPopRet (Some 10)]"]
    c r show ?thesis by (simp add: empty_rb_def front_def Let_def)
qed

section \<open>Full and empty\<close>

lemma run_append:
  "run mv (xs @ ys) s =
     (case run mv xs s of
        Inl e \<Rightarrow> Inl e
      | Inr (rs, s1) \<Rightarrow>
          (case run mv ys s1 of Inl e \<Rightarrow> Inl e | Inr (rs', s2) \<Rightarrow> Inr (rs @ rs', s2)))"
  by (induction xs arbitrary: s) (auto split: sum.splits prod.splits)

lemma try_push_succeeds:
  assumes inv: "rb_inv k s pushed h hc tc"
    and room: "length pushed + 1 < h + 2 ^ k"
    and inb: "length pushed mod 2 ^ k < length (m_buffer s)"
  shows "\<exists>s' hc'. try_push v s = Inr (True, s') \<and> rb_inv k s' (pushed @ [v]) h hc' tc \<and>
           length (m_buffer s') = length (m_buffer s)"
proof -
  have t: "unat (m_tail s) < length (m_buffer s)"
    using inv inb by (simp add: rb_inv_def)
  have nh: "(m_tail s + 1) AND m_index_mask s \<noteq> m_head s"
    using rb_inv_next_tail_eq_head [OF inv] room by simp
  let ?s1 = "if (m_tail s + 1) AND m_index_mask s = m_head_cache s
             then s\<lparr>m_head_cache := m_head s\<rparr> else s"
  let ?s' = "?s1\<lparr>m_buffer := (m_buffer ?s1)[unat (m_tail s) := v],
                 m_tail := (m_tail s + 1) AND m_index_mask s\<rparr>"
  have p: "try_push v s = Inr (True, ?s')"
    using t nh by (auto simp add: try_push_def Let_def)
  have "length (m_buffer ?s') = length (m_buffer s)" by simp
  with try_push_step [OF inv p] p show ?thesis by auto
qed

lemma try_push_full:
  assumes inv: "rb_inv k s pushed h hc tc"
    and full: "length pushed + 1 = h + 2 ^ k"
  shows "try_push v s = Inr (False, s)"
proof -
  from inv have "hc \<le> h" "length pushed < hc + 2 ^ k" by (simp_all add: rb_inv_def)
  with full have "length pushed + 1 = hc + 2 ^ k" by simp
  then have "(m_tail s + 1) AND m_index_mask s = m_head_cache s"
    using rb_inv_next_tail_eq_head_cache [OF inv] by simp
  moreover have "(m_tail s + 1) AND m_index_mask s = m_head s"
    using rb_inv_next_tail_eq_head [OF inv] full by simp
  ultimately show ?thesis by (simp add: try_push_def Let_def)
qed

lemma try_pop_succeeds:
  assumes inv: "rb_inv k s pushed h hc tc" and ne: "h < length pushed"
  shows "\<exists>s' tc'. try_pop mv s = Inr (Some (pushed ! h), s') \<and> rb_inv k s' pushed (Suc h) hc tc'"
proof -
  note slot = rb_inv_front_slot [OF inv ne]
  have nt: "m_head s \<noteq> m_tail s" using rb_inv_head_eq_tail [OF inv] ne by simp
  let ?s1 = "if m_head s = m_tail_cache s then s\<lparr>m_tail_cache := m_tail s\<rparr> else s"
  let ?s' = "?s1\<lparr>m_buffer := (m_buffer ?s1)[unat (m_head s) := mv (m_buffer s ! unat (m_head s))],
                 m_head := (m_head s + 1) AND m_index_mask s\<rparr>"
  have p: "try_pop mv s = Inr (Some (m_buffer s ! unat (m_head s)), ?s')"
    using slot(1) nt by (auto simp add: try_pop_def Let_def)
  from try_pop_step [OF inv p] slot(2) p show ?thesis
    by auto
qed

lemma empty_results:
  assumes inv: "rb_inv k s pushed h hc tc" and e: "h = length pushed"
  shows "front s = Inr (None, s\<lparr>m_tail_cache := m_tail s\<rparr>)"
    and "try_pop mv s = Inr (None, s\<lparr>m_tail_cache := m_tail s\<rparr>)"
proof -
  have "tc = h" using inv e by (simp add: rb_inv_def)
  then have "m_head s = m_tail_cache s" "m_head s = m_tail s"
    using rb_inv_head_eq_tail_cache [OF inv] rb_inv_head_eq_tail [OF inv] e by simp_all
  then show "front s = Inr (None, s\<lparr>m_tail_cache := m_tail s\<rparr>)"
    and "try_pop mv s = Inr (None, s\<lparr>m_tail_cache := m_tail s\<rparr>)"
    by (simp_all add: front_def try_pop_def Let_def)
qed

lemma run_pushes:
  assumes "rb_inv k s pushed h hc tc"
    and "length pushed + length vs < h + 2 ^ k"
    and "\<And>i. length pushed \<le> i \<Longrightarrow> i < length pushed + length vs \<Longrightarrow>
           i mod 2 ^ k < length (m_buffer s)"
  shows "\<exists>s' hc'. run mv (map Push vs) s = Inr (map (\<lambda>v. PushRet v True) vs, s') \<and>
           rb_inv k s' (pushed @ vs) h hc' tc"
  using assms
proof (induction vs arbitrary: s pushed hc)
  case Nil
  then show ?case by auto
next
  case (Cons v vs)
  have "\<exists>s1 hc1. try_push v s = Inr (True, s1) \<and> rb_inv k s1 (pushed @ [v]) h hc1 tc \<and>
      length (m_buffer s1) = length (m_buffer s)"
    using Cons.prems(2) Cons.prems(3) [of "length pushed"]
    by (intro try_push_succeeds [OF Cons.prems(1)]) simp_all
  then obtain s1 hc1 where p: "try_push v s = Inr (True, s1)"
    and inv1: "rb_inv k s1 (pushed @ [v]) h hc1 tc"
    and len: "length (m_buffer s1) = length (m_buffer s)"
    by blast
  have "\<exists>s' hc'. run mv (map Push vs) s1 = Inr (map (\<lambda>v. PushRet v True) vs, s') \<and>
      rb_inv k s' ((pushed @ [v]) @ vs) h hc' tc"
  proof (rule Cons.IH [OF inv1])
    show "length (pushed @ [v]) + length vs < h + 2 ^ k" using Cons.prems(2) by simp
    show "i mod 2 ^ k < length (m_buffer s1)"
      if "length (pushed @ [v]) \<le> i" "i < length (pushed @ [v]) + length vs" for i
      using Cons.prems(3) [of i] that len by simp
  qed
  with p show ?case by auto
qed

lemma run_try_pops:
  assumes "rb_inv k s pushed h hc tc" and "h + n \<le> length pushed"
  shows "\<exists>s' tc'. run mv (replicate n TryPop) s =
             Inr (map (\<lambda>v. TryPopRet (Some v)) (take n (drop h pushed)), s') \<and>
           rb_inv k s' pushed (h + n) hc tc'"
  using assms
proof (induction n arbitrary: s h tc)
  case 0
  then show ?case by auto
next
  case (Suc n)
  from Suc.prems(2) have ne: "h < length pushed" by simp
  from try_pop_succeeds [OF Suc.prems(1) ne, of mv] obtain s1 tc1 where
    p: "try_pop mv s = Inr (Some (pushed ! h), s1)" and inv1: "rb_inv k s1 pushed (Suc h) hc tc1"
    by blast
  from Suc.IH [OF inv1] Suc.prems(2) obtain s' tc' where
    r: "run mv (replicate n TryPop) s1 =
          Inr (map (\<lambda>v. TryPopRet (Some v)) (take n (drop (Suc h) pushed)), s')"
    and inv': "rb_inv k s' pushed (Suc h + n) hc tc'"
    by auto
  have "take (Suc n) (drop h pushed) = pushed ! h # take n (drop (Suc h) pushed)"
    using ne by (simp add: Cons_nth_drop_Suc [symmetric])
  with p r inv' show ?case by auto
qed

text \<open>
  For a request of at most \<open>2 ^ 63\<close> (0 and 1 included): \<^verbatim>\<open>capacity()\<close> pushes into the
  fresh buffer all succeed, the next push returns false, as many \<^verbatim>\<open>try_pop()\<close> calls give
  the values back in order, and then \<^verbatim>\<open>front()\<close> and \<^verbatim>\<open>try_pop()\<close> both report an empty
  buffer.
\<close>

lemma construct_room:
  assumes c: "construct lim fill c = Inr s0" and le: "c \<le> 2 ^ 63"
  shows "unat (capacity s0) \<le> length (m_buffer s0)"
proof (cases "1 < c")
  case True
  obtain k where k: "k \<le> 63" "m_capacity s0 = 2 ^ k" "length (m_buffer s0) = 2 ^ k"
    using construct_shape [OF c] True le by blast
  have "capacity s0 = mask k" using k(2) by (simp add: capacity_def mask_eq_exp_minus_1)
  then show ?thesis using k(1,3) by (simp add: unat_mask_64)
next
  case False
  then have "(if c > 0 then c else 1) = 1"
    by (auto simp add: word_less_nat_alt word_unat_eq_iff)
  moreover have "next_power_of_2 1 = 1" by (simp add: next_power_of_2_def)
  ultimately show ?thesis
    using construct_fields(5,6) [OF c] by (simp add: capacity_def)
qed

lemma full_empty_boundary:
  assumes c: "construct lim fill c = Inr s0" and le: "c \<le> 2 ^ 63"
    and n: "length vs = unat (capacity s0)"
  shows "\<exists>s1 s2.
           run mv (map Push vs @ [Push x]) s0 =
             Inr (map (\<lambda>v. PushRet v True) vs @ [PushRet x False], s1) \<and>
           run mv (replicate (length vs) TryPop @ [Front, TryPop]) s1 =
             Inr (map (\<lambda>v. TryPopRet (Some v)) vs @ [FrontRet None, TryPopRet None], s2)"
proof -
  obtain k where k: "k \<le> 63" "m_index_mask s0 = mask k" "m_capacity s0 = 2 ^ k"
    using construct_shape [OF c] by blast
  have inv0: "rb_inv k s0 [] 0 0 0"
    using k(1,2) construct_fields(1-4) [OF c] by (simp add: rb_inv_def)
  have "capacity s0 = mask k" using k(3) by (simp add: capacity_def mask_eq_exp_minus_1)
  then have cap: "unat (capacity s0) = 2 ^ k - 1" using k(1) by (simp add: unat_mask_64)
  have len: "length vs + 1 = 2 ^ k" using n cap by simp
  have "\<exists>s1 hc1. run mv (map Push vs) s0 = Inr (map (\<lambda>v. PushRet v True) vs, s1) \<and>
      rb_inv k s1 ([] @ vs) 0 hc1 0"
  proof (rule run_pushes [OF inv0])
    show "length [] + length vs < 0 + 2 ^ k" using len by simp
    show "i mod 2 ^ k < length (m_buffer s0)" if "i < length [] + length vs" for i
    proof -
      have "i mod 2 ^ k \<le> i" by simp
      also have "i < length (m_buffer s0)" using that n construct_room [OF c le] by simp
      finally show ?thesis .
    qed
  qed
  then obtain s1 hc1 where pushes: "run mv (map Push vs) s0 = Inr (map (\<lambda>v. PushRet v True) vs, s1)"
    and inv1: "rb_inv k s1 vs 0 hc1 0"
    by auto
  have full: "try_push x s1 = Inr (False, s1)"
    using len by (intro try_push_full [OF inv1]) simp
  have first: "run mv (map Push vs @ [Push x]) s0 =
      Inr (map (\<lambda>v. PushRet v True) vs @ [PushRet x False], s1)"
    using pushes full by (simp add: run_append)
  from run_try_pops [OF inv1, of "length vs" mv] obtain s2 tc2 where
    pops: "run mv (replicate (length vs) TryPop) s1 = Inr (map (\<lambda>v. TryPopRet (Some v)) vs, s2)"
    and inv2: "rb_inv k s2 vs (length vs) hc1 tc2"
    by auto
  let ?s3 = "s2\<lparr>m_tail_cache := m_tail s2\<rparr>"
  have fr: "front s2 = Inr (None, ?s3)"
    by (rule empty_results(1) [OF inv2]) simp
  have inv3: "rb_inv k ?s3 vs (length vs) hc1 (length vs)"
    using inv2 by (rule rb_inv_refresh_tail)
  have tp: "try_pop mv ?s3 = Inr (None, ?s3)"
    using empty_results(2) [OF inv3, of mv] by simp
  have "run mv (replicate (length vs) TryPop @ [Front, TryPop]) s1 =
      Inr (map (\<lambda>v. TryPopRet (Some v)) vs @ [FrontRet None, TryPopRet None], ?s3)"
    using pops fr tp by (simp add: run_append)
  with first show ?thesis by blast
qed

text \<open>
  On a full buffer reached under the precondition of \<^verbatim>\<open>pop()\<close>, \<^verbatim>\<open>head_cache_\<close> is the head,
  so \<^verbatim>\<open>try_push\<close> takes the path that returns false and changes nothing.
\<close>

lemma try_push_on_full_buffer:
  assumes "construct lim fill c = Inr s0" and "run mv cs s0 = Inr (rs, s)"
    and "pop_follows_front False rs" and "full s"
  shows "try_push v s = Inr (False, s)"
proof -
  obtain k where inv0: "rb_inv k s0 [] 0 0 0"
    using construct_rb_inv [OF assms(1)] by blast
  have pf: "pop_follows_front ((None :: 'a option) \<noteq> None) rs" using assms(3) by simp
  have "\<exists>hc' tc'. rb_inv k s ([] @ produced rs) (0 + length (consumed None rs)) hc' tc' \<and>
      take (0 + length (consumed None rs)) ([] @ produced rs) = take 0 [] @ consumed None rs"
    by (rule run_fifo [OF assms(2) inv0 pf]) simp
  then obtain hc' tc' where inv: "rb_inv k s (produced rs) (length (consumed None rs)) hc' tc'"
    by auto
  have "length (produced rs) + 1 = length (consumed None rs) + 2 ^ k"
    using rb_inv_next_tail_eq_head [OF inv] assms(4) by (simp add: full_def)
  then show ?thesis by (rule try_push_full [OF inv])
qed

text \<open>
  C5 at a request of \<open>2 ^ 63 + 1\<close>: \<^verbatim>\<open>next_power_of_2\<close> wraps around to 0, the array is
  allocated with no slot, the guard of the constructor then sets \<^verbatim>\<open>capacity_\<close> to 2, so
  \<^verbatim>\<open>capacity()\<close> is 1, and the first push writes \<^verbatim>\<open>buffer_[0]\<close> outside the array.
\<close>

theorem push_into_empty_array:
  "construct 8 id (2 ^ 63 + 1) =
     Inr \<lparr>m_capacity = 2, m_index_mask = 1, m_buffer = ([] :: nat list),
          m_head = 0, m_tail_cache = 0, m_tail = 0, m_head_cache = 0\<rparr> \<and>
   capacity \<lparr>m_capacity = 2, m_index_mask = 1, m_buffer = ([] :: nat list),
          m_head = 0, m_tail_cache = 0, m_tail = 0, m_head_cache = 0\<rparr> = 1 \<and>
   try_push 10 \<lparr>m_capacity = 2, m_index_mask = 1, m_buffer = ([] :: nat list),
          m_head = 0, m_tail_cache = 0, m_tail = 0, m_head_cache = 0\<rparr> = Inl OutOfBounds"
  by (simp add: construct_def new_array_def next_power_of_2_def try_push_def capacity_def Let_def)

section \<open>The number of elements\<close>

text \<open>
  Under the precondition of \<^verbatim>\<open>pop()\<close>, \<^verbatim>\<open>size()\<close> is the number of values pushed and not yet
  taken out.
\<close>

lemma uint_and_mask: "uint (x AND mask k :: size_t) = uint x mod 2 ^ k"
proof -
  have "uint (x AND mask k) = uint (take_bit k x)"
    by (simp only: take_bit_eq_mask)
  also have "\<dots> = take_bit k (uint x)"
    by (rule unsigned_take_bit_eq)
  finally show ?thesis
    by (simp only: take_bit_eq_mod)
qed

lemma rb_inv_size:
  assumes inv: "rb_inv k s pushed h hc tc"
  shows "unat (size_rb s) = length pushed - h"
proof -
  let ?N = "2 ^ k :: int"
  from inv have k: "k \<le> 64" and m: "m_index_mask s = mask k"
    and t: "unat (m_tail s) = length pushed mod 2 ^ k" and hd: "unat (m_head s) = h mod 2 ^ k"
    and b: "h \<le> length pushed" "length pushed < h + 2 ^ k"
    by (simp_all add: rb_inv_def)
  have ut: "uint (m_tail s) = int (length pushed) mod ?N"
    using t by (simp add: uint_nat zmod_int)
  have uh: "uint (m_head s) = int h mod ?N"
    using hd by (simp add: uint_nat zmod_int)
  have dv: "?N dvd 2 ^ 64" using k by (rule le_imp_power_dvd)
  have "uint (size_rb s) = uint (m_tail s - m_head s) mod ?N"
    by (simp only: size_rb_def Let_def m uint_and_mask)
  also have "uint (m_tail s - m_head s) = (uint (m_tail s) - uint (m_head s)) mod 2 ^ 64"
    by (simp only: uint_word_ariths len_of_numeral_defs) simp
  also have "(uint (m_tail s) - uint (m_head s)) mod 2 ^ 64 mod ?N =
      (uint (m_tail s) - uint (m_head s)) mod ?N"
    using dv by (rule mod_mod_cancel)
  also have "\<dots> = (int (length pushed) - int h) mod ?N"
    unfolding ut uh by (rule mod_diff_eq)
  also have "\<dots> = int (length pushed - h) mod ?N"
    using b(1) by (simp add: of_nat_diff)
  also have "\<dots> = int (length pushed - h)"
  proof (rule mod_pos_pos_trivial)
    show "0 \<le> int (length pushed - h)" by simp
    have "length pushed - h < 2 ^ k" using b by simp
    then have "int (length pushed - h) < int (2 ^ k)" by (simp only: of_nat_less_iff)
    then show "int (length pushed - h) < ?N" by (simp only: of_nat_power of_nat_numeral)
  qed
  finally have "uint (size_rb s) = int (length pushed - h)" .
  then show ?thesis by (simp only: unat_eq_nat_uint nat_int)
qed

lemma size_is_occupancy:
  assumes "construct lim fill c = Inr s0" and "run mv cs s0 = Inr (rs, s)"
    and "pop_follows_front False rs"
  shows "unat (size_rb s) = length (produced rs) - length (consumed None rs)"
proof -
  obtain k where inv0: "rb_inv k s0 [] 0 0 0"
    using construct_rb_inv [OF assms(1)] by blast
  have pf: "pop_follows_front ((None :: 'a option) \<noteq> None) rs" using assms(3) by simp
  have "\<exists>hc' tc'. rb_inv k s ([] @ produced rs) (0 + length (consumed None rs)) hc' tc' \<and>
      take (0 + length (consumed None rs)) ([] @ produced rs) = take 0 [] @ consumed None rs"
    by (rule run_fifo [OF assms(2) inv0 pf]) simp
  then obtain hc' tc' where inv: "rb_inv k s (produced rs) (length (consumed None rs)) hc' tc'"
    by auto
  then show ?thesis by (rule rb_inv_size)
qed

end
